theory Spec2Isabelle
  imports Complex_Main
begin

section \<open>Prioritized replay memory (yarl/components/memories/prioritized\_replay.py)\<close>

text \<open>
  The memory is a ring buffer of records with two segment trees over the priorities of its
  slots: a sum tree, used to sample proportionally to priority, and a min tree, used for the
  importance correction. This theory embeds \<open>PrioritizedReplay\<close> as functions over an
  explicit state record and proves properties of inserting, sampling, reading and updating.

  Conventions of the embedding:
  \<^item> TensorFlow variables are fields of the state record; a graph function takes the state
    and returns the new one. Control dependencies become the order of the state updates.
  \<^item> The \<open>int\<close> variables \<open>index\<close> and \<open>size\<close> never leave \<open>[0, capacity]\<close>, so they
    are natural numbers; 32-bit overflow is out of reach for any capacity that fits memory.
  \<^item> \<open>float32\<close> values are exact reals extended by the IEEE special values (no rounding,
    no signed zero), see \<open>float\<close> below.
  \<^item> A Python \<open>KeyError\<close> is a value of the error type.
\<close>

subsection \<open>Floating point values\<close>

datatype float = Fin real | PInf | NInf | NaN

text \<open>\<open>tf.add\<close>.\<close>

fun fadd :: "float \<Rightarrow> float \<Rightarrow> float" where
  "fadd (Fin a) (Fin b) = Fin (a + b)"
| "fadd NaN _ = NaN"
| "fadd _ NaN = NaN"
| "fadd PInf NInf = NaN"
| "fadd NInf PInf = NaN"
| "fadd PInf _ = PInf"
| "fadd _ PInf = PInf"
| "fadd NInf _ = NInf"
| "fadd _ NInf = NInf"

text \<open>Subtraction, as used by the prefix-sum search.\<close>

fun fneg :: "float \<Rightarrow> float" where
  "fneg (Fin a) = Fin (- a)"
| "fneg PInf = NInf"
| "fneg NInf = PInf"
| "fneg NaN = NaN"

definition fsub :: "float \<Rightarrow> float \<Rightarrow> float" where
  "fsub x y = fadd x (fneg y)"

text \<open>Comparison \<open>x < y\<close>; every comparison with NaN is false.\<close>

fun fless :: "float \<Rightarrow> float \<Rightarrow> bool" where
  "fless (Fin a) (Fin b) = (a < b)"
| "fless NaN _ = False"
| "fless _ NaN = False"
| "fless _ NInf = False"
| "fless NInf _ = True"
| "fless PInf _ = False"
| "fless _ PInf = True"

text \<open>\<open>tf.minimum\<close> and \<open>tf.maximum\<close>; a NaN operand gives NaN.\<close>

fun fminimum :: "float \<Rightarrow> float \<Rightarrow> float" where
  "fminimum (Fin a) (Fin b) = Fin (min a b)"
| "fminimum NaN _ = NaN"
| "fminimum _ NaN = NaN"
| "fminimum NInf _ = NInf"
| "fminimum _ NInf = NInf"
| "fminimum PInf y = y"
| "fminimum x PInf = x"

fun fmaximum :: "float \<Rightarrow> float \<Rightarrow> float" where
  "fmaximum (Fin a) (Fin b) = Fin (max a b)"
| "fmaximum NaN _ = NaN"
| "fmaximum _ NaN = NaN"
| "fmaximum PInf _ = PInf"
| "fmaximum _ PInf = PInf"
| "fmaximum NInf y = y"
| "fmaximum x NInf = x"

text \<open>Multiplication and division; an infinity times zero and the quotients \<open>0 / 0\<close> and
  \<open>inf / inf\<close> are NaN, a non-zero finite value divided by zero is an infinity.\<close>

definition signed_inf :: "bool \<Rightarrow> float" where
  "signed_inf positive = (if positive then PInf else NInf)"

fun fmul :: "float \<Rightarrow> float \<Rightarrow> float" where
  "fmul (Fin a) (Fin b) = Fin (a * b)"
| "fmul NaN _ = NaN"
| "fmul _ NaN = NaN"
| "fmul PInf (Fin b) = (if b = 0 then NaN else signed_inf (0 < b))"
| "fmul NInf (Fin b) = (if b = 0 then NaN else signed_inf (b < 0))"
| "fmul (Fin a) PInf = (if a = 0 then NaN else signed_inf (0 < a))"
| "fmul (Fin a) NInf = (if a = 0 then NaN else signed_inf (a < 0))"
| "fmul PInf PInf = PInf"
| "fmul NInf NInf = PInf"
| "fmul PInf NInf = NInf"
| "fmul NInf PInf = NInf"

fun fdiv :: "float \<Rightarrow> float \<Rightarrow> float" where
  "fdiv (Fin a) (Fin b) =
     (if b \<noteq> 0 then Fin (a / b) else if a = 0 then NaN else signed_inf (0 < a))"
| "fdiv NaN _ = NaN"
| "fdiv _ NaN = NaN"
| "fdiv (Fin a) _ = Fin 0"
| "fdiv PInf (Fin b) = signed_inf (0 \<le> b)"
| "fdiv NInf (Fin b) = signed_inf (b < 0)"
| "fdiv PInf _ = NaN"
| "fdiv NInf _ = NaN"

text \<open>\<open>tf.pow\<close> with a finite exponent \<open>y\<close> (the exponents of the memory are the constants
  \<open>alpha\<close> and \<open>-beta\<close>). Anything to the power zero is one; a negative base has a power
  for integral exponents only.\<close>

definition odd_exponent :: "real \<Rightarrow> bool" where
  "odd_exponent y = (y = of_int \<lfloor>y\<rfloor> \<and> odd \<lfloor>y\<rfloor>)"

fun fpow :: "float \<Rightarrow> real \<Rightarrow> float" where
  "fpow (Fin a) y =
     (if y = 0 then Fin 1
      else if 0 < a then Fin (a powr y)
      else if a = 0 then (if 0 < y then Fin 0 else PInf)
      else if y = of_int \<lfloor>y\<rfloor> then Fin ((if odd \<lfloor>y\<rfloor> then - 1 else 1) * ((- a) powr y))
      else NaN)"
| "fpow PInf y = (if y = 0 then Fin 1 else if 0 < y then PInf else Fin 0)"
| "fpow NInf y =
     (if y = 0 then Fin 1
      else if 0 < y then (if odd_exponent y then NInf else PInf)
      else Fin 0)"
| "fpow NaN y = (if y = 0 then Fin 1 else NaN)"

subsection \<open>Segment tree\<close>

text \<open>
  Modelled from the spec: the class \<open>SegmentTree\<close> (yarl/components/memories/segment\_tree.py)
  is not among the sources; only its calls are. Following the specification, a tree over
  \<open>capacity\<close> leaves is an array of \<open>2 * capacity\<close> nodes, node \<open>k\<close> has the children
  \<open>2 * k\<close> and \<open>2 * k + 1\<close>, the root is node \<open>1\<close> and leaf \<open>i\<close> is node
  \<open>capacity + i\<close>.
\<close>

record segment_tree =
  tree_values :: "float list"
  tree_capacity :: nat

text \<open>
  Modelled from the spec: the walk from a leaf to the root that recomputes each ancestor
  as the combination of its two children. \<open>k\<close> is the first ancestor to recompute.
\<close>

fun recompute :: "(float \<Rightarrow> float \<Rightarrow> float) \<Rightarrow> nat \<Rightarrow> float list \<Rightarrow> float list" where
  "recompute insert_op k vs =
     (if k = 0 then vs
      else recompute insert_op (k div 2)
             (vs[k := insert_op (vs ! (2 * k)) (vs ! (2 * k + 1))]))"

declare recompute.simps [simp del]

text \<open>
  Modelled from the spec: \<open>SegmentTree.insert(index, element, insert_op)\<close>, the point
  update of the specification. The specification knows two ways to write the leaf,
  replacing it or combining the element into it; its algorithms for inserting and for
  updating (section 4.3) both replace, and the source calls \<open>insert\<close> in the same way in
  both, with the operator of the tree (\<open>tf.add\<close> for the sum tree, \<open>tf.minimum\<close> for the
  min tree). So the leaf is set to \<open>element\<close>, and then every ancestor is recomputed with
  \<open>insert_op\<close>.
\<close>

definition insert_st ::
  "segment_tree \<Rightarrow> nat \<Rightarrow> float \<Rightarrow> (float \<Rightarrow> float \<Rightarrow> float) \<Rightarrow> segment_tree" where
  "insert_st t index element insert_op =
     (let i = index + tree_capacity t
      in t\<lparr>tree_values := recompute insert_op (i div 2) ((tree_values t)[i := element])\<rparr>)"

text \<open>Modelled from the spec: \<open>SegmentTree.get(index)\<close>, the direct read of a leaf.\<close>

definition get_st :: "segment_tree \<Rightarrow> nat \<Rightarrow> float" where
  "get_st t index = tree_values t ! (index + tree_capacity t)"

text \<open>Modelled from the spec: the read of the top node, for \<open>get_min_value\<close> the
  global minimum.\<close>

definition root_value :: "segment_tree \<Rightarrow> float" where
  "root_value t = tree_values t ! 1"

definition get_min_value :: "segment_tree \<Rightarrow> float" where
  "get_min_value t = root_value t"

text \<open>
  Modelled from the spec: \<open>SegmentTree.reduce(start, limit)\<close>, the combination of the
  leaves \<open>start, \<dots>, limit\<close>, both included, for the sum tree. An empty range gives the
  neutral element.
\<close>

definition reduce :: "segment_tree \<Rightarrow> int \<Rightarrow> int \<Rightarrow> float" where
  "reduce t start limit = foldl fadd (Fin 0) (map (\<lambda>i. get_st t (nat i)) [start..limit])"

text \<open>
  Modelled from the spec: the descent of \<open>index_of_prefixsum\<close>. At an inner node the
  search goes left when the target is below the left child's value, and otherwise goes
  right with the left child's value taken off the target. The search starts at the root,
  node \<open>1\<close>, and only moves to higher nodes; the guard \<open>0 < node\<close> is what the
  termination proof needs to know of that.
\<close>

function search :: "float list \<Rightarrow> nat \<Rightarrow> nat \<Rightarrow> float \<Rightarrow> nat" where
  "search vs cap node target =
     (if 0 < node \<and> node < cap then
        (let left = vs ! (2 * node)
         in if fless target left then search vs cap (2 * node) target
            else search vs cap (2 * node + 1) (fsub target left))
      else node)"
  by pat_completeness auto
termination
  by (relation "measure (\<lambda>(vs, cap, node, target). cap - node)") auto

declare search.simps [simp del]

text \<open>Modelled from the spec: \<open>index_of_prefixsum\<close>, the index of the leaf at which the
  descent from the root ends.\<close>

definition index_of_prefixsum :: "segment_tree \<Rightarrow> float \<Rightarrow> nat" where
  "index_of_prefixsum t prefix_sum =
     search (tree_values t) (tree_capacity t) 1 prefix_sum - tree_capacity t"

subsection \<open>The state of the memory\<close>

text \<open>
  \<open>EmptyBuffer\<close> is the failure that the specification names for sampling from a memory
  without records; the other errors are those of Python and TensorFlow.
\<close>

datatype error =
  KeyError string | AssertionError | ShapeError | IndexError | DivisionByZero | EmptyBuffer

text \<open>
  The attributes of \<open>PrioritizedReplay\<close>. \<open>record_registry\<close> holds one array of
  \<open>capacity\<close> values for every flat key of the record space, in the order of the
  dictionary; \<open>'v\<close> is the type of one stored value.
\<close>

record 'v prioritized_replay =
  capacity :: nat
  next_states :: bool
  alpha :: real
  beta :: real
  index :: nat
  size_var :: nat
  max_priority :: float
  priority_capacity :: nat
  sum_segment_tree :: segment_tree
  min_segment_tree :: segment_tree
  record_registry :: "(string \<times> 'v list) list"
  flat_state_keys :: "string list"

text \<open>
  The loop of \<open>create_variables\<close> that doubles \<open>priority_capacity\<close> from \<open>1\<close> until
  it reaches the capacity. The value is never zero; the guard \<open>0 < pc\<close> states that for
  the termination proof.
\<close>

function grow_priority_capacity :: "nat \<Rightarrow> nat \<Rightarrow> nat" where
  "grow_priority_capacity cap pc =
     (if 0 < pc \<and> pc < cap then grow_priority_capacity cap (pc * 2) else pc)"
  by pat_completeness auto
termination
  by (relation "measure (\<lambda>(cap, pc). cap - pc)") auto

declare grow_priority_capacity.simps [simp del]

text \<open>
  \<open>__init__\<close> followed by \<open>create_variables\<close>. The record space, the registry of
  arrays and the flat keys of the state space come from the superclass \<open>Memory\<close> and from
  the spaces, which are not among the sources: \<open>record_space\<close> is the list of the top-level
  keys of the record space, \<open>registry\<close> the arrays as the superclass allocates them and
  \<open>state_keys\<close> the flat keys below \<open>states\<close>.
\<close>

definition create_variables ::
  "nat \<Rightarrow> bool \<Rightarrow> real \<Rightarrow> real \<Rightarrow> string list \<Rightarrow> (string \<times> 'v list) list \<Rightarrow> string list
   \<Rightarrow> error + 'v prioritized_replay" where
  "create_variables cap with_next_states a b record_space registry state_keys =
     (if \<not> 0 < a then Inl AssertionError
      else if ''terminals'' \<notin> set record_space then Inl AssertionError
      else if with_next_states \<and> ''states'' \<notin> set record_space then Inl AssertionError
      else
        let pc = grow_priority_capacity cap 1
        in Inr \<lparr> capacity = cap, next_states = with_next_states, alpha = a, beta = b,
                 index = 0, size_var = 0, max_priority = Fin 1, priority_capacity = pc,
                 sum_segment_tree =
                   \<lparr> tree_values = replicate (2 * pc) (Fin 0), tree_capacity = pc \<rparr>,
                 min_segment_tree =
                   \<lparr> tree_values = replicate (2 * pc) PInf, tree_capacity = pc \<rparr>,
                 record_registry = registry,
                 flat_state_keys = (if with_next_states then state_keys else []) \<rparr>)"

subsection \<open>Inserting records\<close>

text \<open>Modelled from the spec: \<open>get_batch_size\<close>, the number of records of a batch.\<close>

definition get_batch_size :: "'a list \<Rightarrow> nat" where
  "get_batch_size batch = length batch"

text \<open>
  Modelled from the spec: \<open>scatter_update_variable\<close> writes \<open>updates\<close> into the array at
  \<open>indices\<close>, one value for each index, in the order of the batch; a batch of another
  length is rejected.
\<close>

definition scatter_update_variable :: "'v list \<Rightarrow> nat list \<Rightarrow> 'v list \<Rightarrow> error + 'v list" where
  "scatter_update_variable variable indices updates =
     (if length updates \<noteq> length indices then Inl ShapeError
      else Inr (fold (\<lambda>(i, v) var. var[i := v]) (zip indices updates) variable))"

text \<open>The loop over the keys of the registry.\<close>

fun update_registry ::
  "(string \<times> 'v list) list \<Rightarrow> nat list \<Rightarrow> (string \<rightharpoonup> 'v list) \<Rightarrow> error + (string \<times> 'v list) list"
  where
  "update_registry [] update_indices records = Inr []"
| "update_registry ((key, variable) # rest) update_indices records =
     (case records key of
        None \<Rightarrow> Inl (KeyError key)
      | Some updates \<Rightarrow>
          (case scatter_update_variable variable update_indices updates of
             Inl e \<Rightarrow> Inl e
           | Inr variable' \<Rightarrow>
               (case update_registry rest update_indices records of
                  Inl e \<Rightarrow> Inl e
                | Inr rest' \<Rightarrow> Inr ((key, variable') # rest'))))"

text \<open>
  The two \<open>tf.while_loop\<close>s of \<open>_graph_fn_insert_records\<close>: for \<open>i = 0, \<dots>,
  num_records - 1\<close> the weight is inserted at \<open>update_indices[i]\<close>.
\<close>

definition insert_loop ::
  "(float \<Rightarrow> float \<Rightarrow> float) \<Rightarrow> nat list \<Rightarrow> float \<Rightarrow> nat \<Rightarrow> segment_tree \<Rightarrow> segment_tree" where
  "insert_loop insert_op update_indices weight num_records t =
     fold (\<lambda>i t. insert_st t (update_indices ! i) weight insert_op) [0 ..< num_records] t"

definition insert_records ::
  "'v prioritized_replay \<Rightarrow> (string \<rightharpoonup> 'v list) \<Rightarrow> error + 'v prioritized_replay" where
  "insert_records s records =
     (case records ''/terminals'' of
        None \<Rightarrow> Inl (KeyError ''/terminals'')
      | Some terminals \<Rightarrow>
          if capacity s = 0 then Inl DivisionByZero
          else
            let num_records = get_batch_size terminals;
                idx = index s;
                update_indices = map (\<lambda>j. j mod capacity s) [idx ..< idx + num_records]
            in (case update_registry (record_registry s) update_indices records of
                  Inl e \<Rightarrow> Inl e
                | Inr registry' \<Rightarrow>
                    let weight = fpow (max_priority s) (alpha s)
                    in Inr (s\<lparr> record_registry := registry',
                               index := (idx + num_records) mod capacity s,
                               size_var := min (size_var s + num_records) (capacity s),
                               sum_segment_tree :=
                                 insert_loop fadd update_indices weight num_records
                                   (sum_segment_tree s),
                               min_segment_tree :=
                                 insert_loop fminimum update_indices weight num_records
                                   (min_segment_tree s) \<rparr>)))"

subsection \<open>Updating priorities\<close>

text \<open>
  The body of the loop of \<open>_graph_fn_update_records\<close>; the loop variables are the two
  trees and the running maximum \<open>max_priority_\<close> (here \<open>max_priority_loop\<close>).
\<close>

definition update_body ::
  "real \<Rightarrow> nat list \<Rightarrow> float list \<Rightarrow> nat \<Rightarrow> segment_tree \<times> segment_tree \<times> float
   \<Rightarrow> segment_tree \<times> segment_tree \<times> float" where
  "update_body a indices update i = (\<lambda>(sum_tree, min_tree, max_priority_loop).
     let priority = fpow (update ! i) a
     in (insert_st sum_tree (indices ! i) priority fadd,
         insert_st min_tree (indices ! i) priority fminimum,
         fmaximum max_priority_loop priority))"

text \<open>
  \<open>_graph_fn_update_records\<close>. The loop starts with \<open>i = 0\<close> and the maximum \<open>0.0\<close>
  and runs while \<open>i < num_records - 1\<close>; the maximum it returns is assigned to the variable
  \<open>max_priority\<close>. Reading \<open>update[i]\<close> beyond the end of \<open>update\<close> fails.
\<close>

definition update_records ::
  "'v prioritized_replay \<Rightarrow> nat list \<Rightarrow> float list \<Rightarrow> error + 'v prioritized_replay" where
  "update_records s indices update =
     (let num_records = get_batch_size indices
      in if length update < num_records - 1 then Inl IndexError
         else
           let (sum_tree, min_tree, max_priority') =
                 fold (update_body (alpha s) indices update) [0 ..< num_records - 1]
                   (sum_segment_tree s, min_segment_tree s, Fin 0)
           in Inr (s\<lparr> sum_segment_tree := sum_tree, min_segment_tree := min_tree,
                      max_priority := max_priority' \<rparr>))"

subsection \<open>Reading and sampling records\<close>

text \<open>
  Modelled from the spec: \<open>read_variable(variable, indices)\<close> gathers the values of an
  array at the given indices; an index beyond the array is an error.
\<close>

definition read_variable :: "'v list \<Rightarrow> nat list \<Rightarrow> error + 'v list" where
  "read_variable variable indices =
     (if list_all (\<lambda>i. i < length variable) indices
      then Inr (map (\<lambda>i. variable ! i) indices)
      else Inl IndexError)"

text \<open>The first loop of \<open>read_records\<close>, over the items of the registry.\<close>

fun read_registry ::
  "(string \<times> 'v list) list \<Rightarrow> nat list \<Rightarrow> (string \<rightharpoonup> 'v list) \<Rightarrow> error + (string \<rightharpoonup> 'v list)"
  where
  "read_registry [] indices records = Inr records"
| "read_registry ((name, variable) # rest) indices records =
     (case read_variable variable indices of
        Inl e \<Rightarrow> Inl e
      | Inr vals \<Rightarrow> read_registry rest indices (records(name \<mapsto> vals)))"

text \<open>The second loop of \<open>read_records\<close>, over the flat keys of the state space.\<close>

fun read_next_states ::
  "(string \<times> 'v list) list \<Rightarrow> nat list \<Rightarrow> string list \<Rightarrow> (string \<rightharpoonup> 'v list)
   \<Rightarrow> error + (string \<rightharpoonup> 'v list)" where
  "read_next_states registry next_indices [] records = Inr records"
| "read_next_states registry next_indices (flat_state_key # keys) records =
     (case map_of registry (''/states'' @ flat_state_key) of
        None \<Rightarrow> Inl (KeyError (''/states'' @ flat_state_key))
      | Some variable \<Rightarrow>
          (case read_variable variable next_indices of
             Inl e \<Rightarrow> Inl e
           | Inr next_states_vals \<Rightarrow>
               read_next_states registry next_indices keys
                 (records(''/next_states'' @ flat_state_key \<mapsto> next_states_vals))))"

definition read_records ::
  "'v prioritized_replay \<Rightarrow> nat list \<Rightarrow> error + (string \<rightharpoonup> 'v list)" where
  "read_records s indices =
     (case read_registry (record_registry s) indices Map.empty of
        Inl e \<Rightarrow> Inl e
      | Inr records \<Rightarrow>
          if next_states s then
            (if capacity s = 0 then Inl DivisionByZero
             else read_next_states (record_registry s)
                    (map (\<lambda>i. (i + 1) mod capacity s) indices) (flat_state_keys s) records)
          else Inr records)"

text \<open>
  The function \<open>importance_sampling_fn\<close> of \<open>_graph_fn_get_records\<close>.
\<close>

definition importance_sampling_fn ::
  "'v prioritized_replay \<Rightarrow> float \<Rightarrow> float \<Rightarrow> nat \<Rightarrow> float" where
  "importance_sampling_fn s stored_elements_prob_sum max_weight sample_index =
     (let sample_prob = fdiv (get_st (sum_segment_tree s) sample_index) stored_elements_prob_sum;
          weight = fpow (fmul sample_prob (Fin (real (size_var s)))) (- beta s)
      in fdiv weight max_weight)"

text \<open>
  \<open>_graph_fn_get_records\<close>. The draws of \<open>tf.random_uniform\<close>, one number of \<open>[0, 1)\<close>
  for each requested record, are the argument \<open>uniform\<close>. The function assigns no
  variable; it returns the state with its result to make that explicit.
\<close>

definition get_records ::
  "'v prioritized_replay \<Rightarrow> real list
   \<Rightarrow> 'v prioritized_replay \<times> (error + (string \<rightharpoonup> 'v list) \<times> nat list \<times> float list)" where
  "get_records s uniform =
     (let current_size = size_var s;
          stored_elements_prob_sum = reduce (sum_segment_tree s) 0 (int current_size - 1);
          sample = map (\<lambda>u. fmul stored_elements_prob_sum (Fin u)) uniform;
          sample_indices = map (index_of_prefixsum (sum_segment_tree s)) sample;
          total_prob = reduce (sum_segment_tree s) 0 (int (priority_capacity s) - 1);
          min_prob = fdiv (get_min_value (min_segment_tree s)) total_prob;
          max_weight = fpow (fmul min_prob (Fin (real current_size))) (- beta s);
          corrected_weights =
            map (importance_sampling_fn s stored_elements_prob_sum max_weight) sample_indices
      in (s, case read_records s sample_indices of
               Inl e \<Rightarrow> Inl e
             | Inr records \<Rightarrow> Inr (records, sample_indices, corrected_weights)))"

subsection \<open>Sequences of inserts, well-formed states and a concrete memory\<close>

text \<open>The number of records of a batch, as \<open>insert_records\<close> reads it.\<close>

definition num_records_of :: "(string \<rightharpoonup> 'v list) \<Rightarrow> nat" where
  "num_records_of records =
     (case records ''/terminals'' of None \<Rightarrow> 0 | Some terminals \<Rightarrow> get_batch_size terminals)"

text \<open>One insert after the other; the first error ends the sequence.\<close>

fun insert_all ::
  "'v prioritized_replay \<Rightarrow> (string \<rightharpoonup> 'v list) list \<Rightarrow> error + 'v prioritized_replay" where
  "insert_all s [] = Inr s"
| "insert_all s (records # batches) =
     (case insert_records s records of
        Inl e \<Rightarrow> Inl e
      | Inr s' \<Rightarrow> insert_all s' batches)"

definition total_records :: "(string \<rightharpoonup> 'v list) list \<Rightarrow> nat" where
  "total_records batches = sum_list (map num_records_of batches)"

text \<open>The slots that an insert of \<open>n\<close> records writes: \<open>update_indices\<close> of
  \<open>_graph_fn_insert_records\<close>.\<close>

definition written_indices :: "'v prioritized_replay \<Rightarrow> nat \<Rightarrow> nat list" where
  "written_indices s n = map (\<lambda>j. j mod capacity s) [index s ..< index s + n]"

text \<open>A batch fits a memory when it has a value list of the same length for every key of
  the registry.\<close>

definition batch_ok :: "'v prioritized_replay \<Rightarrow> (string \<rightharpoonup> 'v list) \<Rightarrow> bool" where
  "batch_ok s records =
     (case records ''/terminals'' of
        None \<Rightarrow> False
      | Some terminals \<Rightarrow>
          list_all (\<lambda>(key, variable).
              case records key of None \<Rightarrow> False | Some b \<Rightarrow> length b = length terminals)
            (record_registry s))"

text \<open>The shape of a tree and of a memory that \<open>create_variables\<close> establishes and that
  every operation keeps.\<close>

definition wf_tree :: "segment_tree \<Rightarrow> bool" where
  "wf_tree t = (0 < tree_capacity t \<and> length (tree_values t) = 2 * tree_capacity t)"

definition wf_memory :: "'v prioritized_replay \<Rightarrow> bool" where
  "wf_memory s =
     (0 < capacity s \<and> index s < capacity s \<and> size_var s \<le> capacity s \<and>
      capacity s \<le> priority_capacity s \<and>
      wf_tree (sum_segment_tree s) \<and> wf_tree (min_segment_tree s) \<and>
      tree_capacity (sum_segment_tree s) = priority_capacity s \<and>
      tree_capacity (min_segment_tree s) = priority_capacity s \<and>
      list_all (\<lambda>(key, variable). length variable = capacity s) (record_registry s))"

text \<open>
  The memory of the scenario of the specification: capacity \<open>4\<close>, \<open>alpha = 1\<close>,
  \<open>beta = 0\<close>, records with a terminal flag and one state field, stored as integers.
  The state space is a single field, whose flat key is the empty string.
\<close>

definition scenario_registry :: "(string \<times> int list) list" where
  "scenario_registry = [(''/terminals'', [0, 0, 0, 0]), (''/states'', [0, 0, 0, 0])]"

definition scenario_memory :: "int prioritized_replay" where
  "scenario_memory =
     \<lparr> capacity = 4, next_states = True, alpha = 1, beta = 0,
       index = 0, size_var = 0, max_priority = Fin 1, priority_capacity = 4,
       sum_segment_tree =
         \<lparr> tree_values = [Fin 0, Fin 0, Fin 0, Fin 0, Fin 0, Fin 0, Fin 0, Fin 0],
           tree_capacity = 4 \<rparr>,
       min_segment_tree =
         \<lparr> tree_values = [PInf, PInf, PInf, PInf, PInf, PInf, PInf, PInf],
           tree_capacity = 4 \<rparr>,
       record_registry = scenario_registry,
       flat_state_keys = [[]] \<rparr>"

definition scenario_batch :: "string \<rightharpoonup> int list" where
  "scenario_batch = [''/terminals'' \<mapsto> [0, 0, 0, 1], ''/states'' \<mapsto> [10, 11, 12, 13]]"

text \<open>The scenario's memory after the four records are inserted.\<close>

definition scenario_inserted :: "int prioritized_replay" where
  "scenario_inserted =
     \<lparr> capacity = 4, next_states = True, alpha = 1, beta = 0,
       index = 0, size_var = 4, max_priority = Fin 1, priority_capacity = 4,
       sum_segment_tree =
         \<lparr> tree_values = [Fin 0, Fin 4, Fin 2, Fin 2, Fin 1, Fin 1, Fin 1, Fin 1],
           tree_capacity = 4 \<rparr>,
       min_segment_tree =
         \<lparr> tree_values = [PInf, Fin 1, Fin 1, Fin 1, Fin 1, Fin 1, Fin 1, Fin 1],
           tree_capacity = 4 \<rparr>,
       record_registry = [(''/terminals'', [0, 0, 0, 1]), (''/states'', [10, 11, 12, 13])],
       flat_state_keys = [[]] \<rparr>"

text \<open>The scenario's memory after \<open>update_records\<close> with the indices \<open>[0, 1, 2, 3]\<close> and the
  priorities \<open>[1, 2, 3, 4]\<close>, as the source computes it.\<close>

definition scenario_updated :: "int prioritized_replay" where
  "scenario_updated =
     \<lparr> capacity = 4, next_states = True, alpha = 1, beta = 0,
       index = 0, size_var = 4, max_priority = Fin 3, priority_capacity = 4,
       sum_segment_tree =
         \<lparr> tree_values = [Fin 0, Fin 7, Fin 3, Fin 4, Fin 1, Fin 2, Fin 3, Fin 1],
           tree_capacity = 4 \<rparr>,
       min_segment_tree =
         \<lparr> tree_values = [PInf, Fin 1, Fin 1, Fin 1, Fin 1, Fin 2, Fin 3, Fin 1],
           tree_capacity = 4 \<rparr>,
       record_registry = [(''/terminals'', [0, 0, 0, 1]), (''/states'', [10, 11, 12, 13])],
       flat_state_keys = [[]] \<rparr>"

text \<open>A memory whose slot \<open>0\<close> has a priority below the running maximum: the scenario's
  memory after \<open>update_records\<close> with the indices \<open>[0, 1, 1]\<close> and the priorities
  \<open>[1/2, 2, 2]\<close>; and that memory after one more record is inserted, into slot \<open>0\<close>.\<close>

definition stale_memory :: "int prioritized_replay" where
  "stale_memory =
     \<lparr> capacity = 4, next_states = True, alpha = 1, beta = 0,
       index = 0, size_var = 4, max_priority = Fin 2, priority_capacity = 4,
       sum_segment_tree =
         \<lparr> tree_values = [Fin 0, Fin (9 / 2), Fin (5 / 2), Fin 2, Fin (1 / 2), Fin 2, Fin 1, Fin 1],
           tree_capacity = 4 \<rparr>,
       min_segment_tree =
         \<lparr> tree_values = [PInf, Fin (1 / 2), Fin (1 / 2), Fin 1, Fin (1 / 2), Fin 2, Fin 1, Fin 1],
           tree_capacity = 4 \<rparr>,
       record_registry = [(''/terminals'', [0, 0, 0, 1]), (''/states'', [10, 11, 12, 13])],
       flat_state_keys = [[]] \<rparr>"

definition stale_overwritten :: "int prioritized_replay" where
  "stale_overwritten =
     \<lparr> capacity = 4, next_states = True, alpha = 1, beta = 0,
       index = 1, size_var = 4, max_priority = Fin 2, priority_capacity = 4,
       sum_segment_tree =
         \<lparr> tree_values = [Fin 0, Fin 6, Fin 4, Fin 2, Fin 2, Fin 2, Fin 1, Fin 1],
           tree_capacity = 4 \<rparr>,
       min_segment_tree =
         \<lparr> tree_values = [PInf, Fin 1, Fin 2, Fin 1, Fin 2, Fin 2, Fin 1, Fin 1],
           tree_capacity = 4 \<rparr>,
       record_registry = [(''/terminals'', [0, 0, 0, 1]), (''/states'', [20, 11, 12, 13])],
       flat_state_keys = [[]] \<rparr>"

text \<open>Every flat key of the state space has its array in the registry, as the superclass
  sets it up.\<close>

definition state_keys_registered :: "'v prioritized_replay \<Rightarrow> bool" where
  "state_keys_registered s =
     list_all (\<lambda>k. map_of (record_registry s) (''/states'' @ k) \<noteq> None) (flat_state_keys s)"

subsection \<open>Consistent trees\<close>


text \<open>The invariant of a segment tree: every inner node is the combination of its two
  children.\<close>

definition tree_inv :: "(float \<Rightarrow> float \<Rightarrow> float) \<Rightarrow> segment_tree \<Rightarrow> bool" where
  "tree_inv combine t =
     list_all (\<lambda>k. tree_values t ! k =
                  combine (tree_values t ! (2 * k)) (tree_values t ! (2 * k + 1)))
       [1 ..< tree_capacity t]"





definition weighted_inserted :: "int prioritized_replay" where
  "weighted_inserted =
     \<lparr> capacity = 2, next_states = False, alpha = 1, beta = 1,
       index = 0, size_var = 2, max_priority = Fin 1, priority_capacity = 2,
       sum_segment_tree = \<lparr> tree_values = [Fin 0, Fin 2, Fin 1, Fin 1], tree_capacity = 2 \<rparr>,
       min_segment_tree = \<lparr> tree_values = [PInf, Fin 1, Fin 1, Fin 1], tree_capacity = 2 \<rparr>,
       record_registry = [(''/terminals'', [0, 1])],
       flat_state_keys = [] \<rparr>"


definition weighted_updated :: "int prioritized_replay" where
  "weighted_updated =
     \<lparr> capacity = 2, next_states = False, alpha = 1, beta = 1,
       index = 0, size_var = 2, max_priority = Fin 4, priority_capacity = 2,
       sum_segment_tree = \<lparr> tree_values = [Fin 0, Fin 5, Fin 4, Fin 1], tree_capacity = 2 \<rparr>,
       min_segment_tree = \<lparr> tree_values = [PInf, Fin 1, Fin 4, Fin 1], tree_capacity = 2 \<rparr>,
       record_registry = [(''/terminals'', [0, 1])],
       flat_state_keys = [] \<rparr>"

subsection \<open>The states that the operations reach\<close>

text \<open>A memory is created with a positive capacity and arrays of that length, and then
  changed by inserts and by updates at indices below the capacity. Sampling and reading
  change nothing.\<close>

inductive reachable :: "'v prioritized_replay \<Rightarrow> bool" where
  created:
    "create_variables cap with_next_states a b record_space registry state_keys = Inr s \<Longrightarrow>
     0 < cap \<Longrightarrow> list_all (\<lambda>(key, variable). length variable = cap) registry \<Longrightarrow>
     reachable s"
| inserted:
    "reachable s \<Longrightarrow> insert_records s records = Inr s' \<Longrightarrow> reachable s'"
| updated:
    "reachable s \<Longrightarrow> list_all (\<lambda>i. i < capacity s) indices \<Longrightarrow>
     update_records s indices update = Inr s' \<Longrightarrow> reachable s'"

section \<open>Properties\<close>

subsection \<open>Unfolding the loops\<close>

lemma recompute_0: "recompute f 0 vs = vs"
  by (simp add: recompute.simps)

lemma recompute_pos:
  "0 < k \<Longrightarrow>
   recompute f k vs = recompute f (k div 2) (vs[k := f (vs ! (2 * k)) (vs ! (2 * k + 1))])"
  by (subst recompute.simps) simp

lemma grow_stop: "\<not> (0 < pc \<and> pc < cap) \<Longrightarrow> grow_priority_capacity cap pc = pc"
  by (subst grow_priority_capacity.simps) auto

lemma grow_step:
  "0 < pc \<Longrightarrow> pc < cap \<Longrightarrow> grow_priority_capacity cap pc = grow_priority_capacity cap (pc * 2)"
  by (subst grow_priority_capacity.simps) simp

lemma search_stop: "\<not> (0 < node \<and> node < cap) \<Longrightarrow> search vs cap node target = node"
  by (subst search.simps) auto

lemma search_left:
  "0 < node \<Longrightarrow> node < cap \<Longrightarrow> fless target (vs ! (2 * node)) \<Longrightarrow>
   search vs cap node target = search vs cap (2 * node) target"
  by (subst search.simps) simp

lemma search_right:
  "0 < node \<Longrightarrow> node < cap \<Longrightarrow> \<not> fless target (vs ! (2 * node)) \<Longrightarrow>
   search vs cap node target = search vs cap (2 * node + 1) (fsub target (vs ! (2 * node)))"
  by (subst search.simps) simp

lemma list_update_Cons_numeral: "(x # xs)[numeral v := y] = x # xs[numeral v - 1 := y]"
  by (simp add: numeral_eq_Suc)

lemma replicate_numeral: "replicate (numeral v) x = x # replicate (numeral v - 1) x"
  by (simp add: numeral_eq_Suc)

lemmas eval_simps =
  recompute_0 recompute_pos grow_stop grow_step search_stop search_left search_right
  list_update_Cons_numeral replicate_numeral upt_conv_Cons Let_def

subsection \<open>Point updates of a segment tree\<close>

lemma length_recompute: "length (recompute f k vs) = length vs"
proof (induction f k vs rule: recompute.induct)
  case (1 f k vs)
  show ?case
  proof (cases "k = 0")
    case True
    then show ?thesis by (simp add: recompute_0)
  next
    case False
    with "1.IH" show ?thesis by (simp add: recompute_pos)
  qed
qed

text \<open>The walk to the root touches no node above the one it starts at.\<close>

lemma recompute_above: "k < j \<Longrightarrow> recompute f k vs ! j = vs ! j"
proof (induction f k vs rule: recompute.induct)
  case (1 f k vs)
  show ?case
  proof (cases "k = 0")
    case True
    then show ?thesis by (simp add: recompute_0)
  next
    case False
    have "k div 2 < j" using "1.prems" by simp
    with "1.IH" False "1.prems" show ?thesis by (simp add: recompute_pos)
  qed
qed

lemma tree_capacity_insert_st: "tree_capacity (insert_st t i e f) = tree_capacity t"
  by (simp add: insert_st_def Let_def)

lemma length_insert_st: "length (tree_values (insert_st t i e f)) = length (tree_values t)"
  by (simp add: insert_st_def Let_def length_recompute)

lemma get_st_insert_same:
  assumes "0 < tree_capacity t" and "i + tree_capacity t < length (tree_values t)"
  shows "get_st (insert_st t i e f) i = e"
proof -
  have "(i + tree_capacity t) div 2 < i + tree_capacity t" using assms(1) by simp
  then show ?thesis using assms(2)
    by (simp add: get_st_def insert_st_def Let_def recompute_above)
qed

lemma get_st_insert_other:
  assumes "i < tree_capacity t" and "j \<noteq> i"
  shows "get_st (insert_st t i e f) j = get_st t j"
proof -
  have "(i + tree_capacity t) div 2 < j + tree_capacity t" using assms(1) by simp
  then show ?thesis using assms(2)
    by (simp add: get_st_def insert_st_def Let_def recompute_above)
qed

lemma wf_tree_insert_st: "wf_tree t \<Longrightarrow> wf_tree (insert_st t i e f)"
  by (simp add: wf_tree_def tree_capacity_insert_st length_insert_st)

lemma fold_insert_st_wf:
  "wf_tree t \<Longrightarrow> wf_tree (fold (\<lambda>i t. insert_st t i w f) xs t)"
  by (induction xs arbitrary: t) (simp_all add: wf_tree_insert_st)

lemma fold_insert_st_capacity:
  "tree_capacity (fold (\<lambda>i t. insert_st t i w f) xs t) = tree_capacity t"
  by (induction xs arbitrary: t) (simp_all add: tree_capacity_insert_st)

text \<open>After a run of inserts of one weight, the leaves written hold the weight and the
  others hold what they held.\<close>

lemma get_st_fold_insert:
  assumes "wf_tree t" and "\<forall>i \<in> set xs. i < tree_capacity t"
  shows "get_st (fold (\<lambda>i t. insert_st t i w f) xs t) j =
           (if j \<in> set xs then w else get_st t j)"
  using assms
proof (induction xs arbitrary: t rule: rev_induct)
  case Nil
  then show ?case by simp
next
  case (snoc x xs)
  let ?t = "fold (\<lambda>i t. insert_st t i w f) xs t"
  have wf: "wf_tree ?t" using snoc.prems(1) by (rule fold_insert_st_wf)
  have cap: "tree_capacity ?t = tree_capacity t" by (rule fold_insert_st_capacity)
  have x: "x < tree_capacity ?t" using snoc.prems(2) cap by simp
  have IH: "get_st ?t j = (if j \<in> set xs then w else get_st t j)"
    using snoc.IH snoc.prems by simp
  show ?case
  proof (cases "j = x")
    case True
    have "x + tree_capacity ?t < length (tree_values ?t)" using wf x by (simp add: wf_tree_def)
    with wf True show ?thesis by (simp add: get_st_insert_same wf_tree_def)
  next
    case False
    with x IH show ?thesis by (simp add: get_st_insert_other)
  qed
qed

lemma fold_nth_upt: "fold (\<lambda>i. g (xs ! i)) [0 ..< length xs] = fold g xs"
proof -
  have "fold g (map (\<lambda>i. xs ! i) [0 ..< length xs]) =
        fold (g \<circ> (\<lambda>i. xs ! i)) [0 ..< length xs]"
    by (rule fold_map)
  then show ?thesis by (simp add: map_nth comp_def)
qed

lemma insert_loop_fold:
  "length update_indices = num_records \<Longrightarrow>
   insert_loop f update_indices w num_records t =
     fold (\<lambda>i t. insert_st t i w f) update_indices t"
  using fold_nth_upt [of "\<lambda>i t. insert_st t i w f" update_indices]
  by (simp add: insert_loop_def)

subsection \<open>The scenario, evaluated\<close>

lemma scenario_create:
  "create_variables 4 True 1 0 [''states'', ''terminals''] scenario_registry [[]] = Inr scenario_memory"
  by (simp add: create_variables_def scenario_memory_def eval_simps)

lemma scenario_insert: "insert_records scenario_memory scenario_batch = Inr scenario_inserted"
  by (simp add: insert_records_def scenario_memory_def scenario_batch_def scenario_registry_def
      scenario_inserted_def get_batch_size_def scatter_update_variable_def insert_loop_def
      insert_st_def eval_simps)

subsection \<open>Inserting: cursor and size\<close>

lemma update_registry_succeeds:
  assumes "length idxs = n"
    and "list_all (\<lambda>(key, variable). case records key of None \<Rightarrow> False | Some b \<Rightarrow> length b = n) registry"
  shows "\<exists>registry'. update_registry registry idxs records = Inr registry'"
  using assms(2)
proof (induction registry)
  case Nil
  then show ?case by simp
next
  case (Cons kv registry)
  obtain key variable where kv: "kv = (key, variable)" by (cases kv)
  from Cons.prems kv obtain b where b: "records key = Some b" "length b = n"
    by (auto split: option.splits)
  from Cons obtain registry' where "update_registry registry idxs records = Inr registry'"
    by auto
  with kv b assms(1) show ?case by (simp add: scatter_update_variable_def)
qed

lemma insert_records_succeeds:
  assumes "0 < capacity s" and "batch_ok s records"
  shows "\<exists>s'. insert_records s records = Inr s'"
proof -
  from assms(2) obtain terminals where t: "records ''/terminals'' = Some terminals"
    and all: "list_all (\<lambda>(key, variable). case records key of None \<Rightarrow> False | Some b \<Rightarrow> length b = length terminals) (record_registry s)"
    by (auto simp: batch_ok_def split: option.splits)
  let ?idxs = "map (\<lambda>j. j mod capacity s) [index s ..< index s + length terminals]"
  have "length ?idxs = length terminals" by simp
  from update_registry_succeeds [OF this all]
  obtain registry' where "update_registry (record_registry s) ?idxs records = Inr registry'"
    by auto
  with t assms(1) show ?thesis
    by (simp add: insert_records_def get_batch_size_def Let_def)
qed

lemma insert_records_Inr:
  assumes "insert_records s records = Inr s'"
  shows "\<exists>registry'.
     0 < capacity s \<and>
     update_registry (record_registry s)
       (written_indices s (num_records_of records)) records = Inr registry' \<and>
     s' = s\<lparr> record_registry := registry',
            index := (index s + num_records_of records) mod capacity s,
            size_var := min (size_var s + num_records_of records) (capacity s),
            sum_segment_tree :=
              insert_loop fadd (written_indices s (num_records_of records))
                (fpow (max_priority s) (alpha s)) (num_records_of records) (sum_segment_tree s),
            min_segment_tree :=
              insert_loop fminimum (written_indices s (num_records_of records))
                (fpow (max_priority s) (alpha s)) (num_records_of records) (min_segment_tree s) \<rparr>"
  using assms
  by (auto simp: insert_records_def get_batch_size_def num_records_of_def written_indices_def
      Let_def split: option.splits if_splits sum.splits)

lemma insert_records_cursor:
  assumes "insert_records s records = Inr s'"
  shows "capacity s' = capacity s \<and>
         index s' = (index s + num_records_of records) mod capacity s \<and>
         size_var s' = min (size_var s + num_records_of records) (capacity s)"
  using insert_records_Inr [OF assms] by auto

lemma insert_all_cursor:
  "insert_all s batches = Inr s' \<Longrightarrow>
   index s mod capacity s = index s \<Longrightarrow> min (size_var s) (capacity s) = size_var s \<Longrightarrow>
     capacity s' = capacity s \<and>
     index s' = (index s + total_records batches) mod capacity s \<and>
     size_var s' = min (size_var s + total_records batches) (capacity s)"
proof (induction batches arbitrary: s)
  case Nil
  then show ?case by (simp add: total_records_def)
next
  case (Cons records batches)
  from Cons.prems obtain s1 where s1: "insert_records s records = Inr s1"
    and rest: "insert_all s1 batches = Inr s'"
    by (auto split: sum.splits)
  note c1 = insert_records_cursor [OF s1]
  have "index s1 mod capacity s1 = index s1" "min (size_var s1) (capacity s1) = size_var s1"
    using c1 by simp_all
  note c2 = Cons.IH [OF rest this]
  have tot: "total_records (records # batches) = num_records_of records + total_records batches"
    by (simp add: total_records_def)
  have "index s' = (index s + total_records (records # batches)) mod capacity s"
    using c1 c2 tot by (simp add: mod_add_left_eq add.assoc)
  moreover have "size_var s' = min (size_var s + total_records (records # batches)) (capacity s)"
    using c1 c2 tot by (simp add: min_def)
  ultimately show ?case using c1 c2 by simp
qed

text \<open>
  C7. An insert of \<open>n\<close> records that succeeds moves the cursor to
  \<open>(index + n) mod capacity\<close> and the size to \<open>min (size + n) capacity\<close>. Hence,
  after a sequence of inserts into a new memory (cursor and size zero) that total \<open>N\<close>
  records, the size is \<open>min N capacity\<close> and the cursor is \<open>N mod capacity\<close>.
  An insert succeeds whenever the capacity is positive and the batch has a list of the
  same length for every key of the registry.
\<close>

theorem insert_advances_cursor_and_size:
  "(insert_records s records = Inr s' \<longrightarrow>
      index s' = (index s + num_records_of records) mod capacity s \<and>
      size_var s' = min (size_var s + num_records_of records) (capacity s)) \<and>
   (index s0 = 0 \<and> size_var s0 = 0 \<and> insert_all s0 batches = Inr sN \<longrightarrow>
      size_var sN = min (total_records batches) (capacity s0) \<and>
      index sN = total_records batches mod capacity s0) \<and>
   (0 < capacity s \<and> batch_ok s records \<longrightarrow> (\<exists>s1. insert_records s records = Inr s1))"
proof (intro conjI impI)
  assume "insert_records s records = Inr s'"
  from insert_records_cursor [OF this]
  show "index s' = (index s + num_records_of records) mod capacity s"
    and "size_var s' = min (size_var s + num_records_of records) (capacity s)"
    by simp_all
next
  assume a: "index s0 = 0 \<and> size_var s0 = 0 \<and> insert_all s0 batches = Inr sN"
  then have "insert_all s0 batches = Inr sN" "index s0 mod capacity s0 = index s0"
    "min (size_var s0) (capacity s0) = size_var s0"
    by simp_all
  from insert_all_cursor [OF this] a
  show "size_var sN = min (total_records batches) (capacity s0)"
    and "index sN = total_records batches mod capacity s0"
    by simp_all
next
  assume "0 < capacity s \<and> batch_ok s records"
  then show "\<exists>s1. insert_records s records = Inr s1"
    using insert_records_succeeds by blast
qed

theorem insert_advances_cursor_and_size_witness:
  "insert_records scenario_memory scenario_batch = Inr scenario_inserted \<and>
   insert_all scenario_memory [scenario_batch] = Inr scenario_inserted \<and>
   index scenario_memory = 0 \<and> size_var scenario_memory = 0 \<and>
   0 < capacity scenario_memory \<and> batch_ok scenario_memory scenario_batch \<and>
   num_records_of scenario_batch = 4 \<and> total_records [scenario_batch] = 4 \<and>
   index scenario_inserted = (0 + 4) mod 4 \<and> size_var scenario_inserted = min (0 + 4) 4"
proof -
  have ok: "batch_ok scenario_memory scenario_batch"
    by (simp add: batch_ok_def scenario_memory_def scenario_batch_def scenario_registry_def)
  have n: "num_records_of scenario_batch = 4"
    by (simp add: num_records_of_def scenario_batch_def get_batch_size_def)
  have st: "index scenario_memory = 0" "size_var scenario_memory = 0" "capacity scenario_memory = 4"
    by (simp_all add: scenario_memory_def)
  have all: "insert_all scenario_memory [scenario_batch] = Inr scenario_inserted"
    by (simp add: scenario_insert)
  from insert_advances_cursor_and_size [of scenario_memory scenario_batch scenario_inserted
      scenario_memory "[scenario_batch]" scenario_inserted]
  show ?thesis using ok n st all scenario_insert by (simp add: total_records_def)
qed

subsection \<open>Well-formed memories\<close>

text \<open>A new memory is well-formed, and inserting and updating keep it so.\<close>

lemma grow_bounds:
  "0 < pc \<Longrightarrow> cap \<le> grow_priority_capacity cap pc \<and> pc \<le> grow_priority_capacity cap pc"
proof (induction cap pc rule: grow_priority_capacity.induct)
  case (1 cap pc)
  show ?case
  proof (cases "pc < cap")
    case True
    with "1.prems" "1.IH" have "cap \<le> grow_priority_capacity cap (pc * 2) \<and> pc * 2 \<le> grow_priority_capacity cap (pc * 2)"
      by simp
    with True "1.prems" show ?thesis by (simp add: grow_step)
  next
    case False
    then show ?thesis by (simp add: grow_stop)
  qed
qed

lemma create_variables_wf:
  assumes "create_variables cap ns a b record_space registry state_keys = Inr s"
    and "0 < cap" and "list_all (\<lambda>(key, variable). length variable = cap) registry"
  shows "wf_memory s"
proof -
  let ?pc = "grow_priority_capacity cap 1"
  have "cap \<le> ?pc" "0 < ?pc" using grow_bounds [of 1 cap] by simp_all
  with assms show ?thesis
    by (auto simp: create_variables_def wf_memory_def wf_tree_def Let_def split: if_splits)
qed

lemma length_fold_list_update:
  "length (fold (\<lambda>(i, v) var. var[i := v]) ivs variable) = length variable"
  by (induction ivs arbitrary: variable) (auto)

lemma update_registry_lengths:
  "update_registry registry idxs records = Inr registry' \<Longrightarrow>
   list_all (\<lambda>(key, variable). length variable = n) registry \<Longrightarrow>
   list_all (\<lambda>(key, variable). length variable = n) registry'"
proof (induction registry arbitrary: registry')
  case Nil
  then show ?case by simp
next
  case (Cons kv registry)
  obtain key variable where kv: "kv = (key, variable)" by (cases kv)
  from Cons.prems(1) kv obtain updates variable' rest' where
    u: "scatter_update_variable variable idxs updates = Inr variable'"
    and r: "update_registry registry idxs records = Inr rest'"
    and eq: "registry' = (key, variable') # rest'"
    by (auto split: option.splits sum.splits)
  from u have "length variable' = length variable"
    by (auto simp: scatter_update_variable_def length_fold_list_update split: if_splits)
  with Cons.IH [OF r] Cons.prems(2) kv eq show ?case by simp
qed

lemma insert_records_wf:
  assumes "wf_memory s" and "insert_records s records = Inr s'"
  shows "wf_memory s'"
proof -
  let ?n = "num_records_of records"
  from insert_records_Inr [OF assms(2)] obtain registry' where
    reg: "update_registry (record_registry s) (written_indices s ?n) records = Inr registry'"
    and s': "s' = s\<lparr> record_registry := registry',
            index := (index s + ?n) mod capacity s,
            size_var := min (size_var s + ?n) (capacity s),
            sum_segment_tree :=
              insert_loop fadd (written_indices s ?n)
                (fpow (max_priority s) (alpha s)) ?n (sum_segment_tree s),
            min_segment_tree :=
              insert_loop fminimum (written_indices s ?n)
                (fpow (max_priority s) (alpha s)) ?n (min_segment_tree s) \<rparr>"
    by blast
  have len: "length (written_indices s ?n) = ?n" by (simp add: written_indices_def)
  have "list_all (\<lambda>(key, variable). length variable = capacity s) registry'"
    using update_registry_lengths [OF reg] assms(1) by (simp add: wf_memory_def)
  with assms(1) show ?thesis
    unfolding s'
    by (simp add: wf_memory_def insert_loop_fold [OF len] fold_insert_st_wf fold_insert_st_capacity)
qed

lemma update_body_fold_wf:
  "wf_tree st \<Longrightarrow> wf_tree mt \<Longrightarrow>
   fold (update_body a indices update) is (st, mt, mp) = (st', mt', mp') \<Longrightarrow>
   wf_tree st' \<and> wf_tree mt' \<and> tree_capacity st' = tree_capacity st \<and> tree_capacity mt' = tree_capacity mt"
proof (induction "is" arbitrary: st mt mp)
  case Nil
  then show ?case by simp
next
  case (Cons i "is")
  obtain st1 mt1 mp1 where step: "update_body a indices update i (st, mt, mp) = (st1, mt1, mp1)"
    by (cases "update_body a indices update i (st, mt, mp)")
  then have wf1: "wf_tree st1" "wf_tree mt1" "tree_capacity st1 = tree_capacity st"
     "tree_capacity mt1 = tree_capacity mt"
    using Cons.prems(1,2) by (auto simp: update_body_def Let_def wf_tree_insert_st tree_capacity_insert_st)
  from Cons.prems(3) step have "fold (update_body a indices update) is (st1, mt1, mp1) = (st', mt', mp')"
    by simp
  from Cons.IH [OF wf1(1,2) this] wf1 show ?case by simp
qed

lemma update_records_wf:
  assumes "wf_memory s" and "update_records s indices update = Inr s'"
  shows "wf_memory s'"
proof -
  obtain st mt mp where f: "fold (update_body (alpha s) indices update) [0 ..< length indices - 1]
                   (sum_segment_tree s, min_segment_tree s, Fin 0) = (st, mt, mp)"
    by (cases "fold (update_body (alpha s) indices update) [0 ..< length indices - 1]
                   (sum_segment_tree s, min_segment_tree s, Fin 0)")
  with assms(2) have s': "s' = s\<lparr> sum_segment_tree := st, min_segment_tree := mt, max_priority := mp \<rparr>"
    by (auto simp: update_records_def get_batch_size_def Let_def split: if_splits)
  from assms(1) have "wf_tree (sum_segment_tree s)" "wf_tree (min_segment_tree s)"
    by (simp_all add: wf_memory_def)
  from update_body_fold_wf [OF this f] assms(1) show ?thesis
    unfolding s' by (simp add: wf_memory_def)
qed

subsection \<open>Inserting an empty batch\<close>

lemma update_registry_empty:
  "list_all (\<lambda>(key, variable). records key = Some []) registry \<Longrightarrow>
   update_registry registry [] records = Inr registry"
  by (induction registry) (auto simp: scatter_update_variable_def)

text \<open>
  C9. Inserting a batch without records (an empty list for every key of the registry) into
  a well-formed memory returns the memory as it was: the cursor, the size, every array of
  the registry and both segment trees are the same.
\<close>

theorem insert_empty_batch_unchanged:
  assumes "wf_memory s"
    and "records ''/terminals'' = Some []"
    and "list_all (\<lambda>(key, variable). records key = Some []) (record_registry s)"
  shows "insert_records s records = Inr s"
  using assms
  by (simp add: wf_memory_def insert_records_def get_batch_size_def insert_loop_def
      update_registry_empty min_absorb1)

lemma scenario_inserted_wf: "wf_memory scenario_inserted"
  by (simp add: wf_memory_def wf_tree_def scenario_inserted_def)

theorem insert_empty_batch_unchanged_witness:
  "wf_memory scenario_inserted \<and>
   insert_records scenario_inserted [''/terminals'' \<mapsto> [], ''/states'' \<mapsto> []] = Inr scenario_inserted"
proof -
  have "list_all (\<lambda>(key, variable). [''/terminals'' \<mapsto> [], ''/states'' \<mapsto> ([]::int list)] key = Some [])
          (record_registry scenario_inserted)"
    by (simp add: scenario_inserted_def)
  with insert_empty_batch_unchanged [OF scenario_inserted_wf, of "[''/terminals'' \<mapsto> [], ''/states'' \<mapsto> []]"]
    scenario_inserted_wf
  show ?thesis by simp
qed

subsection \<open>Updates of the scenario, evaluated\<close>

lemmas update_eval =
  update_records_def update_body_def get_batch_size_def insert_st_def eval_simps

lemma scenario_update:
  "update_records scenario_inserted [0, 1, 2, 3] [Fin 1, Fin 2, Fin 3, Fin 4] = Inr scenario_updated"
  by (simp add: update_eval scenario_inserted_def scenario_updated_def)

lemma stale_update:
  "update_records scenario_inserted [0, 1, 1] [Fin (1 / 2), Fin 2, Fin 2] = Inr stale_memory"
  by (simp add: update_eval scenario_inserted_def stale_memory_def)

lemma stale_insert:
  "insert_records stale_memory [''/terminals'' \<mapsto> [0], ''/states'' \<mapsto> [20]] = Inr stale_overwritten"
  by (simp add: insert_records_def stale_memory_def stale_overwritten_def get_batch_size_def
      scatter_update_variable_def insert_loop_def insert_st_def eval_simps)

subsection \<open>Inserting: the leaves of the trees\<close>

lemma written_indices_bound:
  "wf_memory s \<Longrightarrow> i \<in> set (written_indices s n) \<Longrightarrow> i < priority_capacity s"
proof -
  assume wf: "wf_memory s" and "i \<in> set (written_indices s n)"
  then obtain x where "i = x mod capacity s" by (auto simp: written_indices_def)
  moreover have "0 < capacity s" "capacity s \<le> priority_capacity s"
    using wf by (simp_all add: wf_memory_def)
  ultimately show ?thesis
    using mod_less_divisor [of "capacity s" x] by linarith
qed

lemma insert_records_leaves:
  assumes "wf_memory s" and "insert_records s records = Inr s'"
  shows "get_st (sum_segment_tree s') j =
           (if j \<in> set (written_indices s (num_records_of records))
            then fpow (max_priority s) (alpha s) else get_st (sum_segment_tree s) j)"
    and "get_st (min_segment_tree s') j =
           (if j \<in> set (written_indices s (num_records_of records))
            then fpow (max_priority s) (alpha s) else get_st (min_segment_tree s) j)"
proof -
  let ?n = "num_records_of records"
  let ?w = "fpow (max_priority s) (alpha s)"
  from insert_records_Inr [OF assms(2)] have
    st: "sum_segment_tree s' = insert_loop fadd (written_indices s ?n) ?w ?n (sum_segment_tree s)"
    and mt: "min_segment_tree s' = insert_loop fminimum (written_indices s ?n) ?w ?n (min_segment_tree s)"
    by auto
  have len: "length (written_indices s ?n) = ?n" by (simp add: written_indices_def)
  have wf: "wf_tree (sum_segment_tree s)" "wf_tree (min_segment_tree s)"
    using assms(1) by (simp_all add: wf_memory_def)
  have b1: "\<forall>i \<in> set (written_indices s ?n). i < tree_capacity (sum_segment_tree s)"
    and b2: "\<forall>i \<in> set (written_indices s ?n). i < tree_capacity (min_segment_tree s)"
    using written_indices_bound [OF assms(1)] assms(1) by (simp_all add: wf_memory_def)
  show "get_st (sum_segment_tree s') j =
           (if j \<in> set (written_indices s ?n) then ?w else get_st (sum_segment_tree s) j)"
    unfolding st insert_loop_fold [OF len] by (rule get_st_fold_insert [OF wf(1) b1])
  show "get_st (min_segment_tree s') j =
           (if j \<in> set (written_indices s ?n) then ?w else get_st (min_segment_tree s) j)"
    unfolding mt insert_loop_fold [OF len] by (rule get_st_fold_insert [OF wf(2) b2])
qed

text \<open>
  C5. An insert into a well-formed memory sets the leaf of every slot it writes, in the sum
  tree and in the min tree, to the weight \<open>max_priority ^ alpha\<close>, with the maximum as
  it is when the insert is called. In the scenario (capacity \<open>4\<close>, the maximum \<open>1.0\<close> of a
  new memory) the root of the sum tree is \<open>4.0\<close> after the first four records.
\<close>

theorem insert_sets_written_leaves:
  "(wf_memory s \<and> insert_records s records = Inr s' \<longrightarrow>
      (\<forall>i \<in> set (written_indices s (num_records_of records)).
         get_st (sum_segment_tree s') i = fpow (max_priority s) (alpha s) \<and>
         get_st (min_segment_tree s') i = fpow (max_priority s) (alpha s))) \<and>
   create_variables 4 True 1 0 [''states'', ''terminals''] scenario_registry [[]]
     = Inr scenario_memory \<and>
   insert_records scenario_memory scenario_batch = Inr scenario_inserted \<and>
   root_value (sum_segment_tree scenario_inserted) = Fin 4"
proof (intro conjI impI ballI)
  fix i
  assume a: "wf_memory s \<and> insert_records s records = Inr s'"
    and i: "i \<in> set (written_indices s (num_records_of records))"
  from a have wf: "wf_memory s" and ins: "insert_records s records = Inr s'" by simp_all
  show "get_st (sum_segment_tree s') i = fpow (max_priority s) (alpha s)"
    using insert_records_leaves(1) [OF wf ins, of i] i by simp
  show "get_st (min_segment_tree s') i = fpow (max_priority s) (alpha s)"
    using insert_records_leaves(2) [OF wf ins, of i] i by simp
next
  show "create_variables 4 True 1 0 [''states'', ''terminals''] scenario_registry [[]]
     = Inr scenario_memory"
    by (rule scenario_create)
  show "insert_records scenario_memory scenario_batch = Inr scenario_inserted"
    by (rule scenario_insert)
  show "root_value (sum_segment_tree scenario_inserted) = Fin 4"
    by (simp add: root_value_def scenario_inserted_def)
qed

lemma scenario_memory_wf: "wf_memory scenario_memory"
  by (simp add: wf_memory_def wf_tree_def scenario_memory_def scenario_registry_def)

theorem insert_sets_written_leaves_witness:
  "wf_memory scenario_memory \<and> insert_records scenario_memory scenario_batch = Inr scenario_inserted \<and>
   set (written_indices scenario_memory (num_records_of scenario_batch)) = {0, 1, 2, 3} \<and>
   fpow (max_priority scenario_memory) (alpha scenario_memory) = Fin 1 \<and>
   get_st (sum_segment_tree scenario_inserted) 0 = Fin 1 \<and>
   get_st (min_segment_tree scenario_inserted) 0 = Fin 1 \<and>
   get_st (sum_segment_tree scenario_inserted) 3 = Fin 1 \<and>
   get_st (min_segment_tree scenario_inserted) 3 = Fin 1"
proof -
  have n: "num_records_of scenario_batch = 4"
    by (simp add: num_records_of_def scenario_batch_def get_batch_size_def)
  have w: "set (written_indices scenario_memory 4) = {0, 1, 2, 3}"
    by (auto simp: written_indices_def scenario_memory_def eval_simps)
  have p: "fpow (max_priority scenario_memory) (alpha scenario_memory) = Fin 1"
    by (simp add: scenario_memory_def)
  from insert_sets_written_leaves [of scenario_memory scenario_batch scenario_inserted]
  show ?thesis using scenario_memory_wf scenario_insert n w p by simp
qed

text \<open>
  C10, as it is claimed: an insert leaves at a written index the minimum of the leaf's
  previous value and the weight, and so never raises a leaf of the min tree. The trees
  replace a leaf: slot \<open>0\<close> of \<open>stale_memory\<close> holds \<open>1/2\<close>, the maximum is
  \<open>2\<close>, and the insert that overwrites slot \<open>0\<close> raises its leaf to \<open>2\<close>.
\<close>

theorem insert_min_leaf_counterexample:
  "update_records scenario_inserted [0, 1, 1] [Fin (1 / 2), Fin 2, Fin 2] = Inr stale_memory \<and>
   insert_records stale_memory [''/terminals'' \<mapsto> [0], ''/states'' \<mapsto> [20]]
     = Inr stale_overwritten \<and>
   written_indices stale_memory 1 = [0] \<and>
   get_st (min_segment_tree stale_memory) 0 = Fin (1 / 2) \<and>
   fpow (max_priority stale_memory) (alpha stale_memory) = Fin 2 \<and>
   get_st (min_segment_tree stale_overwritten) 0 = Fin 2 \<and>
   get_st (min_segment_tree stale_overwritten) 0 \<noteq>
     fminimum (get_st (min_segment_tree stale_memory) 0)
       (fpow (max_priority stale_memory) (alpha stale_memory)) \<and>
   fless (get_st (min_segment_tree stale_memory) 0) (get_st (min_segment_tree stale_overwritten) 0)"
proof -
  have "written_indices stale_memory 1 = [0]"
    by (simp add: written_indices_def stale_memory_def)
  moreover have "get_st (min_segment_tree stale_memory) 0 = Fin (1 / 2)"
    by (simp add: get_st_def stale_memory_def)
  moreover have "fpow (max_priority stale_memory) (alpha stale_memory) = Fin 2"
    by (simp add: stale_memory_def)
  moreover have "get_st (min_segment_tree stale_overwritten) 0 = Fin 2"
    by (simp add: get_st_def stale_overwritten_def)
  ultimately show ?thesis using stale_update stale_insert by simp
qed

text \<open>
  C10, amended. An insert into a well-formed memory replaces the leaf of the min tree at
  every index it writes by the weight \<open>max_priority ^ alpha\<close>, whatever the leaf held
  before, and leaves the leaves of the min tree at all other indices as they were.
\<close>

theorem insert_replaces_min_leaf:
  assumes "wf_memory s" and "insert_records s records = Inr s'"
  shows "(i \<in> set (written_indices s (num_records_of records)) \<longrightarrow>
            get_st (min_segment_tree s') i = fpow (max_priority s) (alpha s)) \<and>
         (i \<notin> set (written_indices s (num_records_of records)) \<longrightarrow>
            get_st (min_segment_tree s') i = get_st (min_segment_tree s) i)"
  using insert_records_leaves(2) [OF assms, of i] by simp

lemma stale_memory_wf: "wf_memory stale_memory"
  by (simp add: wf_memory_def wf_tree_def stale_memory_def)

theorem insert_replaces_min_leaf_witness:
  "wf_memory stale_memory \<and>
   insert_records stale_memory [''/terminals'' \<mapsto> [0], ''/states'' \<mapsto> [20]]
     = Inr stale_overwritten \<and>
   0 \<in> set (written_indices stale_memory
               (num_records_of [''/terminals'' \<mapsto> [0::int], ''/states'' \<mapsto> [20]])) \<and>
   1 \<notin> set (written_indices stale_memory
               (num_records_of [''/terminals'' \<mapsto> [0::int], ''/states'' \<mapsto> [20]])) \<and>
   get_st (min_segment_tree stale_overwritten) 0 = Fin 2 \<and>
   get_st (min_segment_tree stale_overwritten) 1 = get_st (min_segment_tree stale_memory) 1"
proof -
  have n: "num_records_of [''/terminals'' \<mapsto> [0::int], ''/states'' \<mapsto> [20]] = 1"
    by (simp add: num_records_of_def get_batch_size_def)
  have w: "written_indices stale_memory 1 = [0]"
    by (simp add: written_indices_def stale_memory_def)
  have p: "fpow (max_priority stale_memory) (alpha stale_memory) = Fin 2"
    by (simp add: stale_memory_def)
  from insert_replaces_min_leaf [OF stale_memory_wf stale_insert, of 0]
    insert_replaces_min_leaf [OF stale_memory_wf stale_insert, of 1]
  show ?thesis using stale_memory_wf stale_insert n w p by simp
qed

subsection \<open>Updating priorities: what the loop does\<close>

text \<open>
  C1. The claim holds for every pair of the batch but the last: the loop of
  \<open>update_records\<close> runs while \<open>i < num_records - 1\<close>, so the last pair is never
  written. With the indices \<open>[0, 1]\<close> and the priorities \<open>[2, 3]\<close> on the scenario's
  memory, leaf \<open>0\<close> becomes \<open>2\<close> in both trees and leaf \<open>1\<close> keeps its \<open>1\<close>,
  where the claim has \<open>3 ^ alpha = 3\<close>.
\<close>

theorem update_skips_last_pair:
  "\<not> isl (update_records scenario_inserted [0, 1] [Fin 2, Fin 3]) \<and>
   get_st (sum_segment_tree (projr (update_records scenario_inserted [0, 1] [Fin 2, Fin 3]))) 0 = Fin 2 \<and>
   get_st (min_segment_tree (projr (update_records scenario_inserted [0, 1] [Fin 2, Fin 3]))) 0 = Fin 2 \<and>
   get_st (sum_segment_tree (projr (update_records scenario_inserted [0, 1] [Fin 2, Fin 3]))) 1 = Fin 1 \<and>
   get_st (min_segment_tree (projr (update_records scenario_inserted [0, 1] [Fin 2, Fin 3]))) 1 = Fin 1 \<and>
   fpow (Fin 3) (alpha scenario_inserted) = Fin 3"
  by (simp add: update_eval scenario_inserted_def get_st_def)

text \<open>
  C2. The maximum that \<open>update_records\<close> stores starts from \<open>0.0\<close>, not from the
  stored maximum, and covers the pairs before the last only: with the priorities
  \<open>[1/2, 5]\<close> on the scenario's memory, whose maximum is \<open>1\<close>, it stores \<open>1/2\<close>,
  where the claim has \<open>max 1 (max (1/2) 5) = 5\<close>.
\<close>

theorem update_max_priority_evaluated:
  "\<not> isl (update_records scenario_inserted [2, 3] [Fin (1 / 2), Fin 5]) \<and>
   max_priority scenario_inserted = Fin 1 \<and>
   max_priority (projr (update_records scenario_inserted [2, 3] [Fin (1 / 2), Fin 5])) = Fin (1 / 2)"
  by (simp add: update_eval scenario_inserted_def)

text \<open>
  C4. The scenario, evaluated: after the four records are inserted and
  \<open>update_records\<close> is called with the indices \<open>[0, 1, 2, 3]\<close> and the priorities
  \<open>[1, 2, 3, 4]\<close>, leaf \<open>3\<close> still holds \<open>1\<close>: the root of the sum tree is
  \<open>7\<close>, the root of the min tree is \<open>1\<close> and the stored maximum is \<open>3\<close>, where the
  claim has \<open>10\<close>, \<open>1\<close> and \<open>4\<close>.
\<close>

theorem scenario_update_evaluated:
  "create_variables 4 True 1 0 [''states'', ''terminals''] scenario_registry [[]]
     = Inr scenario_memory \<and>
   insert_records scenario_memory scenario_batch = Inr scenario_inserted \<and>
   update_records scenario_inserted [0, 1, 2, 3] [Fin 1, Fin 2, Fin 3, Fin 4]
     = Inr scenario_updated \<and>
   root_value (sum_segment_tree scenario_updated) = Fin 7 \<and>
   root_value (min_segment_tree scenario_updated) = Fin 1 \<and>
   max_priority scenario_updated = Fin 3 \<and>
   get_st (sum_segment_tree scenario_updated) 3 = Fin 1"
  using scenario_create scenario_insert scenario_update
  by (simp add: root_value_def get_st_def scenario_updated_def)

subsection \<open>Reading records\<close>

lemma read_variable_Inr:
  "read_variable variable indices = Inr vals \<Longrightarrow> vals = map (\<lambda>i. variable ! i) indices"
  by (auto simp: read_variable_def split: if_splits)

lemma read_variable_succeeds:
  "list_all (\<lambda>i. i < length variable) indices \<Longrightarrow>
   read_variable variable indices = Inr (map (\<lambda>i. variable ! i) indices)"
  by (simp add: read_variable_def)

lemma read_variable_error: "read_variable variable indices = Inl e \<Longrightarrow> e = IndexError"
  by (auto simp: read_variable_def split: if_splits)

lemma read_registry_error:
  "read_registry registry indices records = Inl e \<Longrightarrow> e = IndexError"
proof (induction registry arbitrary: records)
  case Nil
  then show ?case by simp
next
  case (Cons kv registry)
  obtain name variable where kv: "kv = (name, variable)" by (cases kv)
  show ?case
  proof (cases "read_variable variable indices")
    case (Inl e')
    with Cons.prems kv show ?thesis by (auto dest: read_variable_error)
  next
    case (Inr vals)
    with Cons.prems kv have "read_registry registry indices (records(name \<mapsto> vals)) = Inl e"
      by simp
    then show ?thesis by (rule Cons.IH)
  qed
qed

lemma read_next_states_error:
  "read_next_states registry next_indices keys records = Inl e \<Longrightarrow>
   e = IndexError \<or> (\<exists>k. e = KeyError k)"
proof (induction keys arbitrary: records)
  case Nil
  then show ?case by simp
next
  case (Cons k keys)
  show ?case
  proof (cases "map_of registry (''/states'' @ k)")
    case None
    with Cons.prems show ?thesis by auto
  next
    case (Some variable)
    show ?thesis
    proof (cases "read_variable variable next_indices")
      case (Inl e')
      with Cons.prems Some show ?thesis by (auto dest: read_variable_error)
    next
      case (Inr vals)
      with Cons.prems Some
      have "read_next_states registry next_indices keys (records(''/next_states'' @ k \<mapsto> vals)) = Inl e"
        by simp
      then show ?thesis by (rule Cons.IH)
    qed
  qed
qed

lemma read_registry_succeeds:
  "list_all (\<lambda>(name, variable). list_all (\<lambda>i. i < length variable) indices) registry \<Longrightarrow>
   \<exists>records'. read_registry registry indices records = Inr records'"
proof (induction registry arbitrary: records)
  case Nil
  then show ?case by simp
next
  case (Cons kv registry)
  obtain name variable where kv: "kv = (name, variable)" by (cases kv)
  with Cons.prems have "read_variable variable indices = Inr (map (\<lambda>i. variable ! i) indices)"
    by (simp add: read_variable_succeeds)
  moreover from Cons.prems have
    "list_all (\<lambda>(name, variable). list_all (\<lambda>i. i < length variable) indices) registry"
    by simp
  ultimately show ?case using kv Cons.IH by simp
qed

text \<open>The second loop stores, for every flat key of the state space, the values of the
  state array at the shifted indices, and touches no other key.\<close>

lemma read_next_states_Inr:
  assumes "read_next_states registry next_indices keys records = Inr records'"
  shows "(\<forall>k \<in> set keys. records' (''/next_states'' @ k) =
            map_option (\<lambda>variable. map (\<lambda>i. variable ! i) next_indices)
              (map_of registry (''/states'' @ k))) \<and>
         (\<forall>key. key \<notin> (\<lambda>k. ''/next_states'' @ k) ` set keys \<longrightarrow> records' key = records key)"
  using assms
proof (induction keys arbitrary: records)
  case Nil
  then show ?case by simp
next
  case (Cons k keys)
  from Cons.prems obtain variable where var: "map_of registry (''/states'' @ k) = Some variable"
    by (auto split: option.splits)
  with Cons.prems obtain vals where vals: "read_variable variable next_indices = Inr vals"
    by (auto split: sum.splits)
  let ?records1 = "records(''/next_states'' @ k \<mapsto> vals)"
  from Cons.prems var vals
  have rest: "read_next_states registry next_indices keys ?records1 = Inr records'"
    by simp
  note IH = Cons.IH [OF rest]
  have v: "vals = map (\<lambda>i. variable ! i) next_indices" using vals by (rule read_variable_Inr)
  have head: "records' (''/next_states'' @ k) = Some vals"
  proof (cases "k \<in> set keys")
    case True
    with IH var v show ?thesis by simp
  next
    case False
    then have "''/next_states'' @ k \<notin> (\<lambda>k. ''/next_states'' @ k) ` set keys" by auto
    with IH have "records' (''/next_states'' @ k) = ?records1 (''/next_states'' @ k)" by blast
    then show ?thesis by simp
  qed
  show ?case
  proof (intro conjI ballI allI impI)
    fix k' assume "k' \<in> set (k # keys)"
    then show "records' (''/next_states'' @ k') =
            map_option (\<lambda>variable. map (\<lambda>i. variable ! i) next_indices)
              (map_of registry (''/states'' @ k'))"
      using head var v IH by auto
  next
    fix key assume "key \<notin> (\<lambda>k. ''/next_states'' @ k) ` set (k # keys)"
    then have "key \<noteq> ''/next_states'' @ k" "key \<notin> (\<lambda>k. ''/next_states'' @ k) ` set keys"
      by auto
    with IH show "records' key = records key" by simp
  qed
qed

lemma read_next_states_succeeds:
  assumes "list_all (\<lambda>k. case map_of registry (''/states'' @ k) of None \<Rightarrow> False
                         | Some variable \<Rightarrow> list_all (\<lambda>i. i < length variable) next_indices) keys"
  shows "\<exists>records'. read_next_states registry next_indices keys records = Inr records'"
  using assms
proof (induction keys arbitrary: records)
  case Nil
  then show ?case by simp
next
  case (Cons k keys)
  from Cons.prems obtain variable where var: "map_of registry (''/states'' @ k) = Some variable"
    and ok: "list_all (\<lambda>i. i < length variable) next_indices"
    by (auto split: option.splits)
  from Cons.prems have "list_all (\<lambda>k. case map_of registry (''/states'' @ k) of None \<Rightarrow> False
                         | Some variable \<Rightarrow> list_all (\<lambda>i. i < length variable) next_indices) keys"
    by simp
  from Cons.IH [OF this] var ok show ?case by (simp add: read_variable_succeeds)
qed

text \<open>The first loop stores the values of every array of the registry at the indices.\<close>

lemma read_registry_Inr:
  "read_registry registry indices records = Inr records' \<Longrightarrow>
   records' = records ++ map_of (rev (map (\<lambda>(name, variable). (name, map (\<lambda>i. variable ! i) indices)) registry))"
proof (induction registry arbitrary: records)
  case Nil
  then show ?case by simp
next
  case (Cons kv registry)
  obtain name variable where kv: "kv = (name, variable)" by (cases kv)
  from Cons.prems kv obtain vals where vals: "read_variable variable indices = Inr vals"
    and rest: "read_registry registry indices (records(name \<mapsto> vals)) = Inr records'"
    by (auto split: sum.splits)
  have v: "vals = map (\<lambda>i. variable ! i) indices" using vals by (rule read_variable_Inr)
  from Cons.IH [OF rest] kv v show ?case by (simp add: map_add_def fun_eq_iff split: option.splits)
qed

lemma map_of_rev_distinct: "distinct (map fst xs) \<Longrightarrow> map_of (rev xs) = map_of xs"
proof (induction xs)
  case Nil
  then show ?case by simp
next
  case (Cons x xs)
  obtain k v where x: "x = (k, v)" by (cases x)
  with Cons.prems have "map_of xs k = None" by (simp add: map_of_eq_None_iff)
  with Cons x show ?case by (auto simp: map_add_def fun_eq_iff split: option.splits)
qed

lemma read_registry_lookup:
  assumes "read_registry registry indices Map.empty = Inr records'"
    and "distinct (map fst registry)"
  shows "records' key = map_option (\<lambda>variable. map (\<lambda>i. variable ! i) indices) (map_of registry key)"
proof -
  let ?g = "\<lambda>(name, variable). (name, map (\<lambda>i. variable ! i) indices)"
  have fst: "map fst (map ?g registry) = map fst registry" by (induction registry) auto
  have "records' = map_of (rev (map ?g registry))"
    using read_registry_Inr [OF assms(1)] by simp
  also have "\<dots> = map_of (map ?g registry)"
  proof (rule map_of_rev_distinct)
    show "distinct (map fst (map ?g registry))" using assms(2) by (simp only: fst)
  qed
  finally have "records' key = map_of (map ?g registry) key" by simp
  also have "\<dots> = map_option (\<lambda>variable. map (\<lambda>i. variable ! i) indices) (map_of registry key)"
    by (induction registry) auto
  finally show ?thesis .
qed

lemma registered_array_length:
  assumes "wf_memory s" and "map_of (record_registry s) key = Some variable"
  shows "length variable = capacity s"
proof -
  from assms(2) have "(key, variable) \<in> set (record_registry s)" by (rule map_of_SomeD)
  moreover from assms(1) have "list_all (\<lambda>(key, variable). length variable = capacity s) (record_registry s)"
    by (simp add: wf_memory_def)
  ultimately show ?thesis by (auto simp: list_all_iff)
qed

lemma read_records_succeeds:
  assumes "wf_memory s" and "state_keys_registered s"
    and "list_all (\<lambda>i. i < capacity s) indices"
  shows "\<exists>records. read_records s indices = Inr records"
proof -
  from assms(1) have cap: "0 < capacity s"
    and len: "list_all (\<lambda>(key, variable). length variable = capacity s) (record_registry s)"
    by (simp_all add: wf_memory_def)
  from len assms(3)
  have "list_all (\<lambda>(name, variable). list_all (\<lambda>i. i < length variable) indices) (record_registry s)"
    by (auto simp: list_all_iff)
  from read_registry_succeeds [OF this] obtain records1 where
    r1: "read_registry (record_registry s) indices Map.empty = Inr records1" by blast
  let ?next = "map (\<lambda>i. (i + 1) mod capacity s) indices"
  have "list_all (\<lambda>k. case map_of (record_registry s) (''/states'' @ k) of None \<Rightarrow> False
                         | Some variable \<Rightarrow> list_all (\<lambda>i. i < length variable) ?next) (flat_state_keys s)"
    using assms(2) cap registered_array_length [OF assms(1)]
    by (auto simp: state_keys_registered_def list_all_iff split: option.splits)
  from read_next_states_succeeds [OF this] obtain records2 where
    "read_next_states (record_registry s) ?next (flat_state_keys s) records1 = Inr records2"
    by blast
  with r1 cap show ?thesis by (simp add: read_records_def)
qed

text \<open>
  C8. With next states configured, reading a well-formed memory at indices below the
  capacity returns a dictionary that holds, for every flat key \<open>k\<close> of the state space,
  under the key \<open>/next_states k\<close> (which differs from \<open>/states k\<close>) the values of the
  state array \<open>/states k\<close> at \<open>(index + 1) mod capacity\<close>, and under every other key
  the values of that key's array at the indices themselves. In the scenario, index \<open>3\<close>
  yields the state of slot \<open>3\<close> and, as next state, the state of slot \<open>0\<close>.
\<close>

theorem read_records_next_states:
  "(wf_memory s \<and> next_states s \<and> state_keys_registered s \<and>
    distinct (map fst (record_registry s)) \<and> list_all (\<lambda>i. i < capacity s) indices \<longrightarrow>
      (\<exists>records. read_records s indices = Inr records \<and>
         (\<forall>k \<in> set (flat_state_keys s).
            records (''/next_states'' @ k) =
              map_option (\<lambda>variable. map (\<lambda>i. variable ! ((i + 1) mod capacity s)) indices)
                (map_of (record_registry s) (''/states'' @ k)) \<and>
            ''/next_states'' @ k \<noteq> ''/states'' @ k) \<and>
         (\<forall>key. key \<notin> (\<lambda>k. ''/next_states'' @ k) ` set (flat_state_keys s) \<longrightarrow>
            records key =
              map_option (\<lambda>variable. map (\<lambda>i. variable ! i) indices)
                (map_of (record_registry s) key)))) \<and>
   capacity scenario_inserted = 4 \<and>
   map_of (record_registry scenario_inserted) ''/states'' = Some [10, 11, 12, 13] \<and>
   projr (read_records scenario_inserted [3]) ''/states'' = Some [13] \<and>
   projr (read_records scenario_inserted [3]) ''/next_states'' = Some [10]"
proof (intro conjI impI)
  assume a: "wf_memory s \<and> next_states s \<and> state_keys_registered s \<and>
    distinct (map fst (record_registry s)) \<and> list_all (\<lambda>i. i < capacity s) indices"
  then have wf: "wf_memory s" and ns: "next_states s" and reg: "state_keys_registered s"
    and dist: "distinct (map fst (record_registry s))"
    and idx: "list_all (\<lambda>i. i < capacity s) indices"
    by simp_all
  from read_records_succeeds [OF wf reg idx] obtain records where
    rr: "read_records s indices = Inr records" by blast
  let ?next = "map (\<lambda>i. (i + 1) mod capacity s) indices"
  from rr ns obtain records1 where
    r1: "read_registry (record_registry s) indices Map.empty = Inr records1"
    and r2: "read_next_states (record_registry s) ?next (flat_state_keys s) records1 = Inr records"
    by (auto simp: read_records_def split: sum.splits if_splits)
  note n = read_next_states_Inr [OF r2]
  have "\<forall>k \<in> set (flat_state_keys s).
            records (''/next_states'' @ k) =
              map_option (\<lambda>variable. map (\<lambda>i. variable ! ((i + 1) mod capacity s)) indices)
                (map_of (record_registry s) (''/states'' @ k)) \<and>
            ''/next_states'' @ k \<noteq> ''/states'' @ k"
    using n by (simp add: comp_def)
  moreover have "\<forall>key. key \<notin> (\<lambda>k. ''/next_states'' @ k) ` set (flat_state_keys s) \<longrightarrow>
            records key =
              map_option (\<lambda>variable. map (\<lambda>i. variable ! i) indices)
                (map_of (record_registry s) key)"
    using n read_registry_lookup [OF r1 dist] by simp
  ultimately show "\<exists>records. read_records s indices = Inr records \<and>
         (\<forall>k \<in> set (flat_state_keys s).
            records (''/next_states'' @ k) =
              map_option (\<lambda>variable. map (\<lambda>i. variable ! ((i + 1) mod capacity s)) indices)
                (map_of (record_registry s) (''/states'' @ k)) \<and>
            ''/next_states'' @ k \<noteq> ''/states'' @ k) \<and>
         (\<forall>key. key \<notin> (\<lambda>k. ''/next_states'' @ k) ` set (flat_state_keys s) \<longrightarrow>
            records key =
              map_option (\<lambda>variable. map (\<lambda>i. variable ! i) indices)
                (map_of (record_registry s) key))"
    using rr by blast
next
  show "capacity scenario_inserted = 4" by (simp add: scenario_inserted_def)
  show "map_of (record_registry scenario_inserted) ''/states'' = Some [10, 11, 12, 13]"
    by (simp add: scenario_inserted_def)
  show "projr (read_records scenario_inserted [3]) ''/states'' = Some [13]"
    by (simp add: read_records_def read_variable_def scenario_inserted_def)
  show "projr (read_records scenario_inserted [3]) ''/next_states'' = Some [10]"
    by (simp add: read_records_def read_variable_def scenario_inserted_def)
qed

theorem read_records_next_states_witness:
  "wf_memory scenario_inserted \<and> next_states scenario_inserted \<and>
   state_keys_registered scenario_inserted \<and>
   distinct (map fst (record_registry scenario_inserted)) \<and>
   list_all (\<lambda>i. i < capacity scenario_inserted) [3] \<and>
   (\<exists>records. read_records scenario_inserted [3] = Inr records \<and>
      records ''/next_states'' = Some [10] \<and> records ''/terminals'' = Some [1])"
proof -
  have h: "next_states scenario_inserted" "state_keys_registered scenario_inserted"
    "distinct (map fst (record_registry scenario_inserted))"
    "list_all (\<lambda>i. i < capacity scenario_inserted) [3]"
    by (simp_all add: scenario_inserted_def state_keys_registered_def)
  have k: "flat_state_keys scenario_inserted = [[]]" "capacity scenario_inserted = 4"
    "record_registry scenario_inserted =
       [(''/terminals'', [0, 0, 0, 1]), (''/states'', [10, 11, 12, 13])]"
    by (simp_all add: scenario_inserted_def)
  from read_records_next_states [of scenario_inserted "[3]"] scenario_inserted_wf h
  obtain records where r: "read_records scenario_inserted [3] = Inr records"
    and n: "\<forall>k \<in> set (flat_state_keys scenario_inserted).
            records (''/next_states'' @ k) =
              map_option (\<lambda>variable. map (\<lambda>i. variable ! ((i + 1) mod capacity scenario_inserted)) [3])
                (map_of (record_registry scenario_inserted) (''/states'' @ k))"
    and o: "\<forall>key. key \<notin> (\<lambda>k. ''/next_states'' @ k) ` set (flat_state_keys scenario_inserted) \<longrightarrow>
            records key =
              map_option (\<lambda>variable. map (\<lambda>i. variable ! i) [3])
                (map_of (record_registry scenario_inserted) key)"
    by blast
  from n k have "records ''/next_states'' = Some [10]" by simp
  moreover from o k have "records ''/terminals'' = Some [1]" by simp
  ultimately show ?thesis using scenario_inserted_wf h r by blast
qed

subsection \<open>Sampling from a memory without records\<close>

lemma fpow_zero: "fpow x 0 = Fin 1"
  by (cases x) simp_all

lemmas sample_eval = upto_rec1 fpow_zero
  get_records_def importance_sampling_fn_def reduce_def index_of_prefixsum_def get_st_def
  get_min_value_def root_value_def fsub_def signed_inf_def read_records_def read_variable_def
  eval_simps

lemma read_records_error:
  "read_records s indices = Inl e \<Longrightarrow> e \<noteq> EmptyBuffer"
  by (auto simp: read_records_def split: sum.splits if_splits
      dest: read_registry_error read_next_states_error)

lemma get_records_state: "fst (get_records s uniform) = s"
  by (simp add: get_records_def Let_def)

lemma get_records_error: "snd (get_records s uniform) \<noteq> Inl EmptyBuffer"
  by (auto simp: get_records_def Let_def split: sum.splits dest: read_records_error)

lemma search_range:
  "0 < node \<Longrightarrow> node < 2 * cap \<Longrightarrow>
   cap \<le> search vs cap node target \<and> search vs cap node target < 2 * cap"
proof (induction vs cap node target rule: search.induct)
  case (1 vs cap node target)
  show ?case
  proof (cases "node < cap")
    case False
    with "1.prems" show ?thesis by (simp add: search_stop)
  next
    case inner: True
    show ?thesis
    proof (cases "fless target (vs ! (2 * node))")
      case True
      with inner "1.prems" "1.IH"(1) [OF _ refl True] show ?thesis
        by (simp add: search_left)
    next
      case False
      with inner "1.prems" "1.IH"(2) [OF _ refl False] show ?thesis
        by (simp add: search_right)
    qed
  qed
qed

lemma index_of_prefixsum_bound:
  "wf_tree t \<Longrightarrow> index_of_prefixsum t x < tree_capacity t"
  using search_range [of 1 "tree_capacity t" "tree_values t" x]
  by (auto simp: index_of_prefixsum_def wf_tree_def)

lemma get_records_succeeds:
  assumes "wf_memory s" and "state_keys_registered s"
    and "list_all (\<lambda>i. i < capacity s)
           (map (index_of_prefixsum (sum_segment_tree s))
              (map (\<lambda>u. fmul (reduce (sum_segment_tree s) 0 (int (size_var s) - 1)) (Fin u)) uniform))"
  shows "\<exists>records indices weights.
           snd (get_records s uniform) = Inr (records, indices, weights) \<and>
           length indices = length uniform \<and> length weights = length uniform"
proof -
  from read_records_succeeds [OF assms] obtain records where
    "read_records s (map (index_of_prefixsum (sum_segment_tree s))
              (map (\<lambda>u. fmul (reduce (sum_segment_tree s) 0 (int (size_var s) - 1)) (Fin u)) uniform))
       = Inr records"
    by blast
  then show ?thesis by (simp add: get_records_def Let_def)
qed

text \<open>
  C3, as it is claimed: sampling from a memory without records fails with an
  \<open>EmptyBuffer\<close> error. \<open>_graph_fn_get_records\<close> has no check of the size: on the new
  memory of the scenario, whose size and priority mass are zero, one draw returns slot
  \<open>3\<close>, which was never written, with the weight \<open>1.0\<close>.
\<close>

theorem sample_empty_counterexample:
  "size_var scenario_memory = 0 \<and>
   reduce (sum_segment_tree scenario_memory) 0 (int (priority_capacity scenario_memory) - 1) = Fin 0 \<and>
   get_records scenario_memory [1 / 2] =
     (scenario_memory,
      Inr ([''/terminals'' \<mapsto> [0], ''/states'' \<mapsto> [0], ''/next_states'' \<mapsto> [0]],
           [3], [Fin 1]))"
  by (simp add: sample_eval scenario_memory_def scenario_registry_def)

text \<open>
  C3, amended. Sampling assigns no variable and never fails with \<open>EmptyBuffer\<close>, whatever
  the memory holds. On a well-formed memory without records whose priority capacity is its
  capacity and whose state keys are registered, it returns a result: one index and one
  weight for every draw.
\<close>

theorem sample_has_no_empty_check:
  "fst (get_records s uniform) = s \<and> snd (get_records s uniform) \<noteq> Inl EmptyBuffer \<and>
   (wf_memory s \<and> size_var s = 0 \<and> priority_capacity s = capacity s \<and> state_keys_registered s
    \<longrightarrow> (\<exists>records indices weights.
           snd (get_records s uniform) = Inr (records, indices, weights) \<and>
           length indices = length uniform \<and> length weights = length uniform))"
proof (intro conjI impI)
  show "fst (get_records s uniform) = s" by (rule get_records_state)
  show "snd (get_records s uniform) \<noteq> Inl EmptyBuffer" by (rule get_records_error)
next
  assume a: "wf_memory s \<and> size_var s = 0 \<and> priority_capacity s = capacity s \<and>
             state_keys_registered s"
  then have wf: "wf_memory s" and pc: "priority_capacity s = capacity s"
    and reg: "state_keys_registered s"
    by simp_all
  from wf have "wf_tree (sum_segment_tree s)"
    and "tree_capacity (sum_segment_tree s) = priority_capacity s"
    by (simp_all add: wf_memory_def)
  with pc have "\<And>x. index_of_prefixsum (sum_segment_tree s) x < capacity s"
    using index_of_prefixsum_bound [of "sum_segment_tree s"] by simp
  then have "list_all (\<lambda>i. i < capacity s)
           (map (index_of_prefixsum (sum_segment_tree s))
              (map (\<lambda>u. fmul (reduce (sum_segment_tree s) 0 (int (size_var s) - 1)) (Fin u)) uniform))"
    by (simp add: list_all_iff)
  from get_records_succeeds [OF wf reg this]
  show "\<exists>records indices weights.
           snd (get_records s uniform) = Inr (records, indices, weights) \<and>
           length indices = length uniform \<and> length weights = length uniform" .
qed

lemma scenario_memory_registered: "state_keys_registered scenario_memory"
  by (simp add: state_keys_registered_def scenario_memory_def scenario_registry_def)

theorem sample_has_no_empty_check_witness:
  "wf_memory scenario_memory \<and> size_var scenario_memory = 0 \<and>
   priority_capacity scenario_memory = capacity scenario_memory \<and>
   state_keys_registered scenario_memory \<and>
   fst (get_records scenario_memory [1 / 2]) = scenario_memory \<and>
   (\<exists>records indices weights.
      snd (get_records scenario_memory [1 / 2]) = Inr (records, indices, weights) \<and>
      length indices = 1 \<and> length weights = 1)"
proof -
  have "size_var scenario_memory = 0" "priority_capacity scenario_memory = capacity scenario_memory"
    by (simp_all add: scenario_memory_def)
  with sample_has_no_empty_check [of scenario_memory "[1 / 2]"]
    scenario_memory_wf scenario_memory_registered
  show ?thesis by simp
qed

subsection \<open>Sampling: the trees of a consistent memory\<close>

lemma tree_inv_node:
  "tree_inv f t \<Longrightarrow> 0 < k \<Longrightarrow> k < tree_capacity t \<Longrightarrow>
   tree_values t ! k = f (tree_values t ! (2 * k)) (tree_values t ! (2 * k + 1))"
  by (simp add: tree_inv_def list_all_iff)














subsection \<open>Sampling: the weights\<close>







subsection \<open>Sampling: the memory with importance correction, evaluated\<close>




lemma weighted_update:
  "update_records weighted_inserted [0, 1, 1] [Fin 4, Fin 1, Fin 1] = Inr weighted_updated"
  by (simp add: update_eval weighted_inserted_def weighted_updated_def)

text \<open>With \<open>beta = 0\<close> every weight is \<open>1.0\<close>, whatever the memory holds.\<close>

lemma importance_weight_beta_zero:
  "beta s = 0 \<Longrightarrow> importance_sampling_fn s stored (fpow x (- beta s)) i = Fin 1"
  by (simp add: importance_sampling_fn_def fpow_zero)





subsection \<open>The trees stay consistent\<close>

text \<open>The walk to the root restores the invariant at every node that could have lost it:
  the nodes on the path from \<open>k\<close> to the root.\<close>

lemma recompute_restores:
  assumes "\<forall>m. 0 < m \<and> m < cap \<and> (\<forall>d. m \<noteq> k div 2 ^ d) \<longrightarrow>
             vs ! m = f (vs ! (2 * m)) (vs ! (2 * m + 1))"
    and "k < cap" and "2 * cap \<le> length vs"
  shows "\<forall>m. 0 < m \<and> m < cap \<longrightarrow>
           recompute f k vs ! m = f (recompute f k vs ! (2 * m)) (recompute f k vs ! (2 * m + 1))"
  using assms
proof (induction f k vs rule: recompute.induct)
  case (1 f k vs)
  show ?case
  proof (cases "k = 0")
    case True
    with "1.prems"(1) show ?thesis by (simp add: recompute_0)
  next
    case False
    let ?vs = "vs[k := f (vs ! (2 * k)) (vs ! (2 * k + 1))]"
    have "\<forall>m. 0 < m \<and> m < cap \<and> (\<forall>d. m \<noteq> (k div 2) div 2 ^ d) \<longrightarrow>
             ?vs ! m = f (?vs ! (2 * m)) (?vs ! (2 * m + 1))"
    proof (intro allI impI)
      fix m assume m: "0 < m \<and> m < cap \<and> (\<forall>d. m \<noteq> (k div 2) div 2 ^ d)"
      then have "m \<noteq> (k div 2) div 2 ^ 0" by blast
      then have ch: "2 * m \<noteq> k" "2 * m + 1 \<noteq> k" by auto
      show "?vs ! m = f (?vs ! (2 * m)) (?vs ! (2 * m + 1))"
      proof (cases "m = k")
        case True
        with False "1.prems"(2,3) show ?thesis by simp
      next
        case neq: False
        have "\<forall>d. m \<noteq> k div 2 ^ d"
        proof
          fix d show "m \<noteq> k div 2 ^ d"
          proof (cases d)
            case 0
            with neq show ?thesis by simp
          next
            case (Suc d')
            have "k div 2 ^ d = (k div 2) div 2 ^ d'" by (simp add: Suc div_mult2_eq)
            with m show ?thesis by simp
          qed
        qed
        with m "1.prems"(1) have "vs ! m = f (vs ! (2 * m)) (vs ! (2 * m + 1))" by simp
        with neq ch show ?thesis by simp
      qed
    qed
    moreover have "k div 2 < cap" using "1.prems"(2) by simp
    moreover have "2 * cap \<le> length ?vs" using "1.prems"(3) by simp
    ultimately have "\<forall>m. 0 < m \<and> m < cap \<longrightarrow>
           recompute f (k div 2) ?vs ! m =
             f (recompute f (k div 2) ?vs ! (2 * m)) (recompute f (k div 2) ?vs ! (2 * m + 1))"
      using "1.IH" [OF False] by blast
    with False show ?thesis by (simp add: recompute_pos)
  qed
qed

lemma tree_inv_insert_st:
  assumes "wf_tree t" and "tree_inv f t" and "i < tree_capacity t"
  shows "tree_inv f (insert_st t i e f)"
proof -
  let ?cap = "tree_capacity t" and ?vs = "(tree_values t)[i + tree_capacity t := e]"
  let ?k = "(i + ?cap) div 2"
  have "\<forall>m. 0 < m \<and> m < ?cap \<and> (\<forall>d. m \<noteq> ?k div 2 ^ d) \<longrightarrow>
             ?vs ! m = f (?vs ! (2 * m)) (?vs ! (2 * m + 1))"
  proof (intro allI impI)
    fix m assume m: "0 < m \<and> m < ?cap \<and> (\<forall>d. m \<noteq> ?k div 2 ^ d)"
    then have "m \<noteq> ?k div 2 ^ 0" by blast
    then have ch: "2 * m \<noteq> i + ?cap" "2 * m + 1 \<noteq> i + ?cap" by auto
    from m have "m \<noteq> i + ?cap" by simp
    with ch tree_inv_node [OF assms(2)] m
    show "?vs ! m = f (?vs ! (2 * m)) (?vs ! (2 * m + 1))" by simp
  qed
  moreover have "?k < ?cap" using assms(3) by simp
  moreover have "2 * ?cap \<le> length ?vs" using assms(1) by (simp add: wf_tree_def)
  ultimately have "\<forall>m. 0 < m \<and> m < ?cap \<longrightarrow>
           recompute f ?k ?vs ! m = f (recompute f ?k ?vs ! (2 * m)) (recompute f ?k ?vs ! (2 * m + 1))"
    by (rule recompute_restores)
  then show ?thesis by (simp add: tree_inv_def insert_st_def Let_def list_all_iff)
qed

lemma tree_inv_fold_insert:
  "wf_tree t \<Longrightarrow> tree_inv f t \<Longrightarrow> \<forall>i \<in> set xs. i < tree_capacity t \<Longrightarrow>
   tree_inv f (fold (\<lambda>i t. insert_st t i w f) xs t)"
proof (induction xs arbitrary: t)
  case Nil
  then show ?case by simp
next
  case (Cons x xs)
  have "wf_tree (insert_st t x w f)" using Cons.prems(1) by (rule wf_tree_insert_st)
  moreover have "tree_inv f (insert_st t x w f)"
    using Cons.prems by (intro tree_inv_insert_st) simp_all
  moreover have "\<forall>i \<in> set xs. i < tree_capacity (insert_st t x w f)"
    using Cons.prems(3) by (simp add: tree_capacity_insert_st)
  ultimately show ?case using Cons.IH by simp
qed

lemma tree_inv_replicate:
  "f x x = x \<Longrightarrow> tree_inv f \<lparr> tree_values = replicate (2 * pc) x, tree_capacity = pc \<rparr>"
  by (simp add: tree_inv_def list_all_iff)

lemma create_variables_tree_inv:
  assumes "create_variables cap ns a b record_space registry state_keys = Inr s"
  shows "tree_inv fadd (sum_segment_tree s) \<and> tree_inv fminimum (min_segment_tree s)"
  using assms
  by (auto simp: create_variables_def Let_def tree_inv_replicate split: if_splits)

lemma insert_records_tree_inv:
  assumes "wf_memory s" and "tree_inv fadd (sum_segment_tree s)"
    and "tree_inv fminimum (min_segment_tree s)" and "insert_records s records = Inr s'"
  shows "tree_inv fadd (sum_segment_tree s') \<and> tree_inv fminimum (min_segment_tree s')"
proof -
  let ?n = "num_records_of records"
  let ?w = "fpow (max_priority s) (alpha s)"
  from insert_records_Inr [OF assms(4)] have
    st: "sum_segment_tree s' = insert_loop fadd (written_indices s ?n) ?w ?n (sum_segment_tree s)"
    and mt: "min_segment_tree s' = insert_loop fminimum (written_indices s ?n) ?w ?n (min_segment_tree s)"
    by auto
  have len: "length (written_indices s ?n) = ?n" by (simp add: written_indices_def)
  have wf: "wf_tree (sum_segment_tree s)" "wf_tree (min_segment_tree s)"
    using assms(1) by (simp_all add: wf_memory_def)
  have b1: "\<forall>i \<in> set (written_indices s ?n). i < tree_capacity (sum_segment_tree s)"
    and b2: "\<forall>i \<in> set (written_indices s ?n). i < tree_capacity (min_segment_tree s)"
    using written_indices_bound [OF assms(1)] assms(1) by (simp_all add: wf_memory_def)
  show ?thesis
    unfolding st mt insert_loop_fold [OF len]
    using tree_inv_fold_insert [OF wf(1) assms(2) b1] tree_inv_fold_insert [OF wf(2) assms(3) b2]
    by simp
qed

lemma update_body_fold_tree_inv:
  "wf_tree st \<Longrightarrow> wf_tree mt \<Longrightarrow> tree_inv fadd st \<Longrightarrow> tree_inv fminimum mt \<Longrightarrow>
   \<forall>i \<in> set is. indices ! i < tree_capacity st \<and> indices ! i < tree_capacity mt \<Longrightarrow>
   fold (update_body a indices update) is (st, mt, mp) = (st', mt', mp') \<Longrightarrow>
   tree_inv fadd st' \<and> tree_inv fminimum mt'"
proof (induction "is" arbitrary: st mt mp)
  case Nil
  then show ?case by simp
next
  case (Cons i "is")
  let ?p = "fpow (update ! i) a"
  let ?st = "insert_st st (indices ! i) ?p fadd" and ?mt = "insert_st mt (indices ! i) ?p fminimum"
  have step: "update_body a indices update i (st, mt, mp) = (?st, ?mt, fmaximum mp ?p)"
    by (simp add: update_body_def Let_def)
  have wf: "wf_tree ?st" "wf_tree ?mt" using Cons.prems(1,2) by (simp_all add: wf_tree_insert_st)
  have inv: "tree_inv fadd ?st" "tree_inv fminimum ?mt"
    using Cons.prems(1-5) by (simp_all add: tree_inv_insert_st)
  have b: "\<forall>i \<in> set is. indices ! i < tree_capacity ?st \<and> indices ! i < tree_capacity ?mt"
    using Cons.prems(5) by (simp add: tree_capacity_insert_st)
  from Cons.prems(6) step
  have "fold (update_body a indices update) is (?st, ?mt, fmaximum mp ?p) = (st', mt', mp')"
    by simp
  from Cons.IH [OF wf inv b this] show ?case .
qed

lemma update_records_tree_inv:
  assumes "wf_memory s" and "tree_inv fadd (sum_segment_tree s)"
    and "tree_inv fminimum (min_segment_tree s)"
    and "list_all (\<lambda>i. i < capacity s) indices"
    and "update_records s indices update = Inr s'"
  shows "tree_inv fadd (sum_segment_tree s') \<and> tree_inv fminimum (min_segment_tree s')"
proof -
  obtain st mt mp where f: "fold (update_body (alpha s) indices update) [0 ..< length indices - 1]
                   (sum_segment_tree s, min_segment_tree s, Fin 0) = (st, mt, mp)"
    by (cases "fold (update_body (alpha s) indices update) [0 ..< length indices - 1]
                   (sum_segment_tree s, min_segment_tree s, Fin 0)")
  with assms(5) have s': "s' = s\<lparr> sum_segment_tree := st, min_segment_tree := mt, max_priority := mp \<rparr>"
    by (auto simp: update_records_def get_batch_size_def Let_def split: if_splits)
  from assms(1) have wf: "wf_tree (sum_segment_tree s)" "wf_tree (min_segment_tree s)"
    and cap: "tree_capacity (sum_segment_tree s) = priority_capacity s"
      "tree_capacity (min_segment_tree s) = priority_capacity s"
      "capacity s \<le> priority_capacity s"
    by (simp_all add: wf_memory_def)
  have b: "\<forall>i \<in> set [0 ..< length indices - 1].
             indices ! i < tree_capacity (sum_segment_tree s) \<and>
             indices ! i < tree_capacity (min_segment_tree s)"
  proof
    fix i assume "i \<in> set [0 ..< length indices - 1]"
    then have "i < length indices" by simp
    with assms(4) have "indices ! i < capacity s" by (simp add: list_all_length)
    with cap show "indices ! i < tree_capacity (sum_segment_tree s) \<and>
             indices ! i < tree_capacity (min_segment_tree s)"
      by simp
  qed
  from update_body_fold_tree_inv [OF wf assms(2,3) b f] show ?thesis unfolding s' by simp
qed

text \<open>In every state that the operations reach the memory is well-formed and every inner
  node of either tree is the combination of its children.\<close>

lemma reachable_consistent:
  "reachable s \<Longrightarrow>
   wf_memory s \<and> tree_inv fadd (sum_segment_tree s) \<and> tree_inv fminimum (min_segment_tree s)"
proof (induction rule: reachable.induct)
  case (created cap with_next_states a b record_space registry state_keys s)
  then show ?case using create_variables_wf create_variables_tree_inv by blast
next
  case (inserted s records s')
  then show ?case using insert_records_wf insert_records_tree_inv by blast
next
  case (updated s indices update s')
  then show ?case using update_records_wf update_records_tree_inv by blast
qed

end
